theory Spec2Isabelle
  imports
    Main
    "HOL-Library.Sublist"
    "HOL-Library.Multiset"
    "HOL-Library.FSet"
    "HOL-Library.Char_ord"
    "HOL-Library.List_Lexorder"
begin

section \<open>Strings\<close>

text \<open>
  A Go \<open>string\<close> is a sequence of bytes, here a \<^typ>\<open>string\<close> (a list of \<^typ>\<open>char\<close>, one
  per byte). Go compares strings byte by byte, shorter prefix first: this is the order of
  \<open>List_Lexorder\<close> over \<open>Char_ord\<close>.

  The functions of this section are those of Go's package \<open>strings\<close> that
  \<open>merge/merge.go\<close> calls.
\<close>

text \<open>
  \<open>strings.Split(s, sep)\<close> for a separator of one byte: cut at every occurrence of the
  separator; a string without separator is the only piece, and so is the empty string.
\<close>

function Split :: "string \<Rightarrow> char \<Rightarrow> string list" where
  "Split s sep =
     (case dropWhile (\<lambda>c. c \<noteq> sep) s of
        [] \<Rightarrow> [s]
      | _ # rest \<Rightarrow> takeWhile (\<lambda>c. c \<noteq> sep) s # Split rest sep)"
  by pat_completeness auto
termination
proof (relation "measure (\<lambda>(s, sep). length s)")
  show "wf (measure (\<lambda>(s, sep). length s))" by simp
next
  fix s :: string and sep x21 x22
  assume "dropWhile (\<lambda>c. c \<noteq> sep) s = x21 # x22"
  then have "length (dropWhile (\<lambda>c. c \<noteq> sep) s) = Suc (length x22)" by simp
  moreover have "length (dropWhile (\<lambda>c. c \<noteq> sep) s) \<le> length s"
    by (rule length_dropWhile_le)
  ultimately show "((x22, sep), (s, sep)) \<in> measure (\<lambda>(s, sep). length s)" by simp
qed

declare Split.simps [simp del]

text \<open>\<open>strings.Join(elems, sep)\<close>.\<close>

fun Join :: "string list \<Rightarrow> string \<Rightarrow> string" where
  "Join [] sep = []"
| "Join [x] sep = x"
| "Join (x # y # ys) sep = x @ sep @ Join (y # ys) sep"

text \<open>
  The white space of \<open>unicode.IsSpace\<close>, each rune in its UTF-8 encoding: tab, line feed,
  vertical tab, form feed, carriage return, space, U+0085, U+00A0, U+1680, U+2000 to U+200A,
  U+2028, U+2029, U+202F, U+205F and U+3000. No encoding is a proper prefix or suffix of a
  different rune's encoding, so a string starts (ends) with a white space rune exactly when it
  starts (ends) with one of these byte sequences.
\<close>

definition spaceRunes :: "string list" where
  "spaceRunes =
     [[CHR 0x09], [CHR 0x0A], [CHR 0x0B], [CHR 0x0C], [CHR 0x0D], [CHR 0x20],
      [CHR 0xC2, CHR 0x85], [CHR 0xC2, CHR 0xA0],
      [CHR 0xE1, CHR 0x9A, CHR 0x80],
      [CHR 0xE2, CHR 0x80, CHR 0x80], [CHR 0xE2, CHR 0x80, CHR 0x81],
      [CHR 0xE2, CHR 0x80, CHR 0x82], [CHR 0xE2, CHR 0x80, CHR 0x83],
      [CHR 0xE2, CHR 0x80, CHR 0x84], [CHR 0xE2, CHR 0x80, CHR 0x85],
      [CHR 0xE2, CHR 0x80, CHR 0x86], [CHR 0xE2, CHR 0x80, CHR 0x87],
      [CHR 0xE2, CHR 0x80, CHR 0x88], [CHR 0xE2, CHR 0x80, CHR 0x89],
      [CHR 0xE2, CHR 0x80, CHR 0x8A],
      [CHR 0xE2, CHR 0x80, CHR 0xA8], [CHR 0xE2, CHR 0x80, CHR 0xA9],
      [CHR 0xE2, CHR 0x80, CHR 0xAF],
      [CHR 0xE2, CHR 0x81, CHR 0x9F],
      [CHR 0xE3, CHR 0x80, CHR 0x80]]"

text \<open>The number of bytes of the white space rune a string starts with, 0 when it starts with none.\<close>

definition leadingSpace :: "string \<Rightarrow> nat" where
  "leadingSpace s = (case find (\<lambda>w. prefix w s) spaceRunes of None \<Rightarrow> 0 | Some w \<Rightarrow> length w)"

definition trailingSpace :: "string \<Rightarrow> nat" where
  "trailingSpace s = (case find (\<lambda>w. suffix w s) spaceRunes of None \<Rightarrow> 0 | Some w \<Rightarrow> length w)"

function TrimLeftSpace :: "string \<Rightarrow> string" where
  "TrimLeftSpace s =
     (if leadingSpace s = 0 then s else TrimLeftSpace (drop (leadingSpace s) s))"
  by pat_completeness auto
termination
proof (relation "measure length")
  show "wf (measure length)" by simp
next
  fix s :: string
  assume h: "leadingSpace s \<noteq> 0"
  have "leadingSpace [] = 0" by (simp add: leadingSpace_def spaceRunes_def)
  with h have "s \<noteq> []" by auto
  with h show "(drop (leadingSpace s) s, s) \<in> measure length" by simp
qed

function TrimRightSpace :: "string \<Rightarrow> string" where
  "TrimRightSpace s =
     (if trailingSpace s = 0 then s else TrimRightSpace (take (length s - trailingSpace s) s))"
  by pat_completeness auto
termination
proof (relation "measure length")
  show "wf (measure length)" by simp
next
  fix s :: string
  assume h: "trailingSpace s \<noteq> 0"
  have "trailingSpace [] = 0" by (simp add: trailingSpace_def spaceRunes_def)
  with h have "s \<noteq> []" by auto
  with h show "(take (length s - trailingSpace s) s, s) \<in> measure length" by simp
qed

declare TrimLeftSpace.simps [simp del] TrimRightSpace.simps [simp del]

text \<open>\<open>strings.TrimSpace(s)\<close>: the leading, then the trailing white space is cut.\<close>

definition TrimSpace :: "string \<Rightarrow> string" where
  "TrimSpace s = TrimRightSpace (TrimLeftSpace s)"

text \<open>
  \<open>strings.ToLower(s)\<close> on the bytes of ASCII: a letter \<open>A\<close> to \<open>Z\<close> becomes \<open>a\<close> to \<open>z\<close>,
  every other byte is kept. (On a rune beyond ASCII Go applies the case mapping of Unicode.
  The only use of \<open>ToLower\<close> in the program asks whether the result starts with the byte
  \<open>n\<close>, and no rune beyond ASCII has a lower case form in ASCII other than \<open>i\<close> and \<open>k\<close>.)
\<close>

definition toLowerByte :: "char \<Rightarrow> char" where
  "toLowerByte c =
     (if CHR ''A'' \<le> c \<and> c \<le> CHR ''Z'' then char_of (of_char c + (32::nat)) else c)"

definition ToLower :: "string \<Rightarrow> string" where
  "ToLower s = map toLowerByte s"

text \<open>\<open>strings.HasPrefix(s, prefix)\<close>.\<close>

definition HasPrefix :: "string \<Rightarrow> string \<Rightarrow> bool" where
  "HasPrefix s p = (take (length p) s = p)"

text \<open>The verb \<open>%d\<close> of package \<open>fmt\<close> on a number that is not negative: its decimal digits.\<close>

definition digit :: "nat \<Rightarrow> char" where
  "digit d = char_of (48 + d)"

function decimal :: "nat \<Rightarrow> string" where
  "decimal n = (if n < 10 then [digit n] else decimal (n div 10) @ [digit (n mod 10)])"
  by pat_completeness auto
termination
  by (relation "measure id") auto

declare decimal.simps [simp del]

section \<open>Rows\<close>

text \<open>The names of the columns the program knows.\<close>

definition Name :: string where "Name = ''name''"
definition Email :: string where "Email = ''email''"
definition Going :: string where "Going = ''going''"

text \<open>
  \<open>type CsvRow map[string]string\<close>: from the name of a column to its value. Reading a key
  the map does not hold gives the empty string, as Go's \<open>c[key]\<close> does.
\<close>

type_synonym CsvRow = "string \<rightharpoonup> string"

definition at :: "CsvRow \<Rightarrow> string \<Rightarrow> string" where
  "at c key = (case c key of None \<Rightarrow> [] | Some v \<Rightarrow> v)"

definition row_Name :: "CsvRow \<Rightarrow> string" where
  "row_Name c = at c Name"

definition row_Email :: "CsvRow \<Rightarrow> string" where
  "row_Email c = at c Email"

definition row_Going :: "CsvRow \<Rightarrow> bool" where
  "row_Going c = (\<not> HasPrefix (ToLower (at c Going)) ''n'')"

text \<open>\<open>CsvRow.WithNotGoing\<close>: a copy of the map, with the going column set to \<open>n\<close>.\<close>

definition row_WithNotGoing :: "CsvRow \<Rightarrow> CsvRow" where
  "row_WithNotGoing c = c(Going \<mapsto> ''n'')"

section \<open>Sets of emails\<close>

text \<open>\<open>type EmailSet map[string]struct{}\<close>: a finite set of strings.\<close>

type_synonym EmailSet = "string fset"

definition NewEmailSet :: "string \<Rightarrow> EmailSet" where
  "NewEmailSet commaSeparatedEmails =
     fset_of_list (map TrimSpace (Split commaSeparatedEmails CHR '',''))"

definition Contains :: "EmailSet \<Rightarrow> string \<Rightarrow> bool" where
  "Contains e email = (email |\<in>| e)"

definition Difference :: "EmailSet \<Rightarrow> EmailSet \<Rightarrow> EmailSet" where
  "Difference e other = ffilter (\<lambda>email. \<not> Contains other email) e"

text \<open>
  \<open>EmailSet.String\<close>: the keys of the map, sorted by \<open>sort.Strings\<close>, joined by a comma
  and a space. The keys of a map are distinct, so the sorted slice is the one strictly
  ascending list of the elements.
\<close>

definition String :: "EmailSet \<Rightarrow> string" where
  "String e = Join (sorted_list_of_fset e) '', ''"

section \<open>Files\<close>

record CsvFile =
  Headers :: "string list"
  Rows :: "CsvRow list"

text \<open>\<open>CsvFile.sel\<close>: the rows that \<open>f\<close> accepts, in their order, under the same headers.\<close>

fun sel_loop :: "(CsvRow \<Rightarrow> bool) \<Rightarrow> CsvRow list \<Rightarrow> CsvRow list \<Rightarrow> CsvRow list" where
  "sel_loop f result [] = result"
| "sel_loop f result (row # rows) =
     sel_loop f (if f row then result @ [row] else result) rows"

definition sel :: "CsvFile \<Rightarrow> (CsvRow \<Rightarrow> bool) \<Rightarrow> CsvFile" where
  "sel c f = \<lparr>Headers = Headers c, Rows = sel_loop f [] (Rows c)\<rparr>"

definition SelectEmails :: "CsvFile \<Rightarrow> EmailSet \<Rightarrow> CsvFile" where
  "SelectEmails c emails = sel c (\<lambda>row. Contains emails (row_Email row))"

definition SelectNoEmails :: "CsvFile \<Rightarrow> EmailSet \<Rightarrow> CsvFile" where
  "SelectNoEmails c emails = sel c (\<lambda>row. \<not> Contains emails (row_Email row))"

definition SelectGoing :: "CsvFile \<Rightarrow> CsvFile" where
  "SelectGoing c = sel c (\<lambda>row. row_Going row)"

fun AsEmailSet_loop :: "EmailSet \<Rightarrow> CsvRow list \<Rightarrow> EmailSet" where
  "AsEmailSet_loop result [] = result"
| "AsEmailSet_loop result (row # rows) = AsEmailSet_loop (finsert (row_Email row) result) rows"

definition AsEmailSet :: "CsvFile \<Rightarrow> EmailSet" where
  "AsEmailSet c = AsEmailSet_loop {||} (Rows c)"

text \<open>\<open>addGoingHeader\<close>: the headers, with the going column added at the end when it is not there.\<close>

definition addGoingHeader :: "string list \<Rightarrow> string list" where
  "addGoingHeader headers = (if Going \<in> set headers then headers else headers @ [Going])"

fun WithNotGoing_loop :: "CsvRow list \<Rightarrow> CsvRow list \<Rightarrow> CsvRow list" where
  "WithNotGoing_loop result [] = result"
| "WithNotGoing_loop result (row # rows) = WithNotGoing_loop (result @ [row_WithNotGoing row]) rows"

definition WithNotGoing :: "CsvFile \<Rightarrow> CsvFile" where
  "WithNotGoing c =
     \<lparr>Headers = addGoingHeader (Headers c), Rows = WithNotGoing_loop [] (Rows c)\<rparr>"

section \<open>Notions of the specification\<close>

text \<open>A string made of white space runes only.\<close>

definition allSpace :: "string \<Rightarrow> bool" where
  "allSpace s = (\<exists>ws. set ws \<subseteq> set spaceRunes \<and> s = concat ws)"

text \<open>
  The invariant of a table: the keys of every row are among the headers. The loader
  establishes it, and every operation on files keeps it.
\<close>

definition table_inv :: "CsvFile \<Rightarrow> bool" where
  "table_inv T = (\<forall>row \<in> set (Rows T). dom row \<subseteq> set (Headers T))"

text \<open>The table of the tests of the package, \<open>csvStr\<close> in \<open>merge_test.go\<close>.\<close>

definition alice :: CsvRow where
  "alice = [''email'' \<mapsto> ''alice@gmail.com'', ''name'' \<mapsto> ''alice'', ''going'' \<mapsto> ''no'']"

definition bob :: CsvRow where
  "bob = [''email'' \<mapsto> ''bob@gmail.com'', ''name'' \<mapsto> ''bob'', ''going'' \<mapsto> ''yes'']"

definition charlie :: CsvRow where
  "charlie = [''email'' \<mapsto> ''charlie@gmail.com'', ''name'' \<mapsto> ''charlie'', ''going'' \<mapsto> ''yes'']"

definition roster :: CsvFile where
  "roster = \<lparr>Headers = [''email'', ''name'', ''going''], Rows = [alice, bob, charlie]\<rparr>"

section \<open>The CSV format\<close>

text \<open>
  Go's standard package \<open>encoding/csv\<close> is not part of the repository. This section
  models, from the documentation of the package, the writer and the reader that
  \<open>merge/merge.go\<close> creates with \<open>csv.NewWriter\<close> and \<open>csv.NewReader\<close> and leaves as
  they are: the comma separates fields, no comment character, no lazy quotes, leading space is
  kept, lines end with a line feed, and \<open>FieldsPerRecord\<close> starts as 0.
\<close>

abbreviation NL :: char where "NL \<equiv> CHR 0x0A"
abbreviation CR :: char where "CR \<equiv> CHR 0x0D"
abbreviation DQ :: char where "DQ \<equiv> CHR 0x22"
abbreviation Comma :: char where "Comma \<equiv> CHR '',''"

subsection \<open>Writing\<close>

text \<open>
  \<open>Writer.fieldNeedsQuotes\<close>: the empty field is written bare; a field is quoted when it
  is \<open>\.\<close>, when it holds a comma, a quote, a carriage return or a line feed, or when it
  starts with white space.
\<close>

definition fieldNeedsQuotes :: "string \<Rightarrow> bool" where
  "fieldNeedsQuotes field =
     (if field = [] then False
      else if field = [CHR 0x5C, CHR ''.''] then True
      else if \<exists>c \<in> set field. c = NL \<or> c = CR \<or> c = DQ \<or> c = Comma then True
      else leadingSpace field \<noteq> 0)"

text \<open>A quoted field: every quote inside is doubled, every other byte is written as it is.\<close>

fun escape :: "string \<Rightarrow> string" where
  "escape [] = []"
| "escape (c # field) = (if c = DQ then [DQ, DQ] else [c]) @ escape field"

definition quoteField :: "string \<Rightarrow> string" where
  "quoteField field = DQ # escape field @ [DQ]"

definition writeField :: "string \<Rightarrow> string" where
  "writeField field = (if fieldNeedsQuotes field then quoteField field else field)"

text \<open>\<open>Writer.Write\<close>: the bytes one record adds to the output, its fields and a line feed.\<close>

definition csvWrite :: "string list \<Rightarrow> string" where
  "csvWrite record = Join (map writeField record) [Comma] @ [NL]"

subsection \<open>Reading lines\<close>

text \<open>
  The reader takes its input line by line, each line with the line feed that ends it; the
  last line may lack one.
\<close>

function splitLines :: "string \<Rightarrow> string list" where
  "splitLines s =
     (if s = [] then []
      else (case dropWhile (\<lambda>c. c \<noteq> NL) s of
              [] \<Rightarrow> [s]
            | _ # rest \<Rightarrow> (takeWhile (\<lambda>c. c \<noteq> NL) s @ [NL]) # splitLines rest))"
  by pat_completeness auto
termination
proof (relation "measure length")
  show "wf (measure length)" by simp
next
  fix s :: string and x21 x22
  assume "dropWhile (\<lambda>c. c \<noteq> NL) s = x21 # x22"
  then have "length (dropWhile (\<lambda>c. c \<noteq> NL) s) = Suc (length x22)" by simp
  moreover have "length (dropWhile (\<lambda>c. c \<noteq> NL) s) \<le> length s"
    by (rule length_dropWhile_le)
  ultimately show "(x22, s) \<in> measure length" by simp
qed

declare splitLines.simps [simp del]

text \<open>
  \<open>Reader.readLine\<close> on one line: a carriage return at the very end of the input is
  dropped, and a carriage return in front of the line feed is removed.
\<close>

definition fixLine :: "string \<Rightarrow> string" where
  "fixLine line =
     (if line \<noteq> [] \<and> last line = CR then butlast line
      else if suffix [CR, NL] line then take (length line - 2) line @ [NL]
      else line)"

definition readLines :: "string \<Rightarrow> string list" where
  "readLines text = map fixLine (splitLines text)"

definition lengthNL :: "string \<Rightarrow> nat" where
  "lengthNL line = (if line \<noteq> [] \<and> last line = NL then 1 else 0)"

text \<open>A line the reader skips between records: nothing but its line feed.\<close>

definition blank :: "string \<Rightarrow> bool" where
  "blank line = (length line = lengthNL line)"

subsection \<open>Reading records\<close>

datatype csv_err = ErrBareQuote | ErrQuote | ErrFieldCount

text \<open>
  A Go \<open>error\<close> that is not \<open>nil\<close>: the end of the input (\<open>io.EOF\<close>), an error of the CSV
  reader (of \<open>csv.ParseError\<close> the line where the record starts and the kind of the error
  are kept, the column is left out), or a message made by \<open>fmt.Errorf\<close>.
\<close>

datatype error = EOF | ParseError nat csv_err | Errorf string

text \<open>
  The loop \<open>parseField\<close> of \<open>Reader.readRecord\<close>. \<open>line\<close> is what is left of the current
  line, \<open>rest\<close> the lines after it, \<open>rec\<close> the fields read so far and \<open>n\<close> the number of
  lines read beyond the first line of the record. The result is the fields, the error if
  there is one, and the final \<open>n\<close>. A field that starts with a quote goes on, across lines,
  until its closing quote, which a comma or the end of the line must follow.
\<close>

function parseField :: "string \<Rightarrow> string list \<Rightarrow> string list \<Rightarrow> nat
                          \<Rightarrow> string list \<times> csv_err option \<times> nat"
  and parseQuoted :: "string \<Rightarrow> string list \<Rightarrow> string \<Rightarrow> string list \<Rightarrow> nat
                          \<Rightarrow> string list \<times> csv_err option \<times> nat"
where
  "parseField line rest rec n =
     (if line = [] \<or> hd line \<noteq> DQ then
        (let field = (if Comma \<in> set line then takeWhile (\<lambda>c. c \<noteq> Comma) line
                      else take (length line - lengthNL line) line)
         in if DQ \<in> set field then (rec, Some ErrBareQuote, n)
            else if Comma \<in> set line
              then parseField (tl (dropWhile (\<lambda>c. c \<noteq> Comma) line)) rest (rec @ [field]) n
              else (rec @ [field], None, n))
      else parseQuoted (tl line) rest [] rec n)"
| "parseQuoted line rest buf rec n =
     (if DQ \<in> set line then
        (let buf' = buf @ takeWhile (\<lambda>c. c \<noteq> DQ) line;
             line' = tl (dropWhile (\<lambda>c. c \<noteq> DQ) line)
         in if line' \<noteq> [] \<and> hd line' = DQ then parseQuoted (tl line') rest (buf' @ [DQ]) rec n
            else if line' \<noteq> [] \<and> hd line' = Comma then parseField (tl line') rest (rec @ [buf']) n
            else if lengthNL line' = length line' then (rec @ [buf'], None, n)
            else (rec, Some ErrQuote, n))
      else if line \<noteq> [] then
        (case rest of
           [] \<Rightarrow> parseQuoted [] [] (buf @ line) rec (Suc n)
         | l # ls \<Rightarrow> parseQuoted l ls (buf @ line) rec (Suc n))
      else (rec, Some ErrQuote, n))"
  by pat_completeness auto
termination
proof -
  have le: "length (dropWhile P line) \<le> length line" for P and line :: string
    by (rule length_dropWhile_le)
  have c: "length (dropWhile P line) - Suc 0 < length line" if "x \<in> set line"
    for P x and line :: string
  proof -
    from that have "0 < length line" by (cases line) auto
    with le [of P line] show ?thesis by linarith
  qed
  have q: "length (dropWhile P line) - Suc (Suc 0) < length line" if "x \<in> set line"
    for P x and line :: string
    using c [OF that, of P] by linarith
  show ?thesis
    by (relation "measures
      [\<lambda>x. case x of Inl (line, rest, rec, n) \<Rightarrow> length rest
                   | Inr (line, rest, buf, rec, n) \<Rightarrow> length rest,
       \<lambda>x. case x of Inl (line, rest, rec, n) \<Rightarrow> length line
                   | Inr (line, rest, buf, rec, n) \<Rightarrow> length line,
       \<lambda>x. case x of Inl _ \<Rightarrow> 1 | Inr _ \<Rightarrow> 0]")
       (auto simp add: c q)
qed

declare parseField.simps [simp del] parseQuoted.simps [simp del]

text \<open>
  What one call of \<open>Reader.readRecord\<close> gives: the line on which the record starts (the
  line of \<open>FieldPos(0)\<close>, counted from 1), its fields, and the error of the parser if there
  is one.
\<close>

type_synonym token = "nat \<times> string list \<times> csv_err option"

text \<open>
  The records of the input, one for each call of \<open>readRecord\<close> before the end of the
  input. \<open>numLine\<close> is the number of lines read so far. Blank lines before a record are
  skipped and counted.
\<close>

function tokenize :: "nat \<Rightarrow> string list \<Rightarrow> token list" where
  "tokenize numLine lines =
     (case dropWhile blank lines of
        [] \<Rightarrow> []
      | line # rest \<Rightarrow>
          (let recLine = numLine + length (takeWhile blank lines) + 1;
               (dst, err, n) = parseField line rest [] 0
           in (recLine, dst, err) # tokenize (recLine + n) (drop n rest)))"
  by pat_completeness auto
termination
proof (relation "measure (\<lambda>(numLine, lines). length lines)")
  show "wf (measure (\<lambda>(numLine, lines). length lines))" by simp
next
  fix numLine :: nat and lines :: "string list" and line rest recLine x dst y err n
  assume "dropWhile blank lines = line # rest"
  then have "length (dropWhile blank lines) = Suc (length rest)" by simp
  moreover have "length (dropWhile blank lines) \<le> length lines"
    by (rule length_dropWhile_le)
  ultimately show "((recLine + n, drop n rest), (numLine, lines))
      \<in> measure (\<lambda>(numLine, lines). length lines)"
    by simp
qed

declare tokenize.simps [simp del]

text \<open>
  The reader: the records not yet read, \<open>FieldsPerRecord\<close>, and the line of the first field
  of the record read last. (The reader of Go parses a record when it is asked for; the
  records do not depend on when they are parsed.)
\<close>

record Reader =
  pending :: "token list"
  FieldsPerRecord :: nat
  fieldLine :: nat

definition NewReader :: "string \<Rightarrow> Reader" where
  "NewReader r = \<lparr>pending = tokenize 0 (readLines r), FieldsPerRecord = 0, fieldLine = 0\<rparr>"

text \<open>
  \<open>Reader.Read\<close>: the next record and the error, and the reader after the call. When
  \<open>FieldsPerRecord\<close> is 0 the number of fields of the record sets it; from then on a
  record with another number of fields is returned with the error \<open>ErrFieldCount\<close>.
\<close>

definition Read :: "Reader \<Rightarrow> (string list \<times> error option) \<times> Reader" where
  "Read r =
     (case pending r of
        [] \<Rightarrow> (([], Some EOF), r)
      | (recLine, dst, err) # later \<Rightarrow>
          (let r' = r\<lparr>pending := later, fieldLine := recLine\<rparr>
           in if 0 < FieldsPerRecord r
              then (if length dst \<noteq> FieldsPerRecord r \<and> err = None
                    then ((dst, Some (ParseError recLine ErrFieldCount)), r')
                    else ((dst, map_option (ParseError recLine) err), r'))
              else ((dst, map_option (ParseError recLine) err),
                    r'\<lparr>FieldsPerRecord := length dst\<rparr>)))"

text \<open>The line of \<open>Reader.FieldPos(0)\<close>.\<close>

definition FieldPos0 :: "Reader \<Rightarrow> nat" where
  "FieldPos0 r = fieldLine r"

section \<open>Loading and writing files\<close>

text \<open>
  \<open>createCsvRow\<close>: the header at each index is given the field of the row at that index.
  Where the row has no field at an index of the headers, Go panics: the result is \<open>None\<close>.
\<close>

fun createCsvRow_loop :: "CsvRow \<Rightarrow> nat \<Rightarrow> string list \<Rightarrow> string list \<Rightarrow> CsvRow option" where
  "createCsvRow_loop result index [] row = Some result"
| "createCsvRow_loop result index (colName # headers) row =
     (if index < length row
      then createCsvRow_loop (result(colName \<mapsto> row ! index)) (Suc index) headers row
      else None)"

definition createCsvRow :: "string list \<Rightarrow> string list \<Rightarrow> CsvRow option" where
  "createCsvRow headers row = createCsvRow_loop Map.empty 0 headers row"

text \<open>What a call of \<open>readCsv\<close> does: it returns a file, returns an error, or panics.\<close>

datatype load_result = Loaded CsvFile | Fails error | Panics

text \<open>
  The loop of \<open>readCsv\<close>, each round with the call of \<open>Read\<close> that the source makes before
  the round.
\<close>

function readCsv_loop :: "string list \<Rightarrow> CsvRow list \<Rightarrow> Reader \<Rightarrow> load_result" where
  "readCsv_loop headers result csvReader =
     (case Read csvReader of
        ((row, Some EOF), _) \<Rightarrow> Loaded \<lparr>Headers = headers, Rows = result\<rparr>
      | ((row, Some err), _) \<Rightarrow> Fails err
      | ((row, None), csvReader') \<Rightarrow>
          (let lineNo = FieldPos0 csvReader'
           in case createCsvRow headers row of
                None \<Rightarrow> Panics
              | Some crow \<Rightarrow>
                  if row_Name crow = [] \<or> row_Email crow = []
                  then Fails (Errorf (''Line '' @ decimal lineNo
                                       @ '': name and email columns must be present''))
                  else readCsv_loop headers (result @ [crow]) csvReader'))"
  by pat_completeness auto
termination
proof (relation "measure (\<lambda>(headers, result, csvReader). length (pending csvReader))")
  show "wf (measure (\<lambda>(headers, result, csvReader). length (pending csvReader)))" by simp
next
  fix headers :: "string list" and result :: "CsvRow list" and csvReader x row err csvReader'
    and lineNo :: nat and crow :: CsvRow
  assume "(x, csvReader') = Read csvReader" "(row, err) = x" "err = None"
  then have "Read csvReader = ((row, None), csvReader')" by simp
  then have "length (pending csvReader') < length (pending csvReader)"
    by (auto simp add: Read_def Let_def split: list.splits if_splits prod.splits)
  then show "((headers, result @ [crow], csvReader'), (headers, result, csvReader))
      \<in> measure (\<lambda>(headers, result, csvReader). length (pending csvReader))"
    by simp
qed

declare readCsv_loop.simps [simp del]

definition readCsv :: "string \<Rightarrow> load_result" where
  "readCsv r =
     (case Read (NewReader r) of
        ((headers, Some err), _) \<Rightarrow> Fails err
      | ((headers, None), csvReader) \<Rightarrow> readCsv_loop headers [] csvReader)"

text \<open>
  \<open>CsvFile.write\<close> into a writer that takes every byte, as the \<open>strings.Builder\<close> of the
  tests does: the text written. The line of a row holds, for each header in turn, the value
  the row has for it.
\<close>

fun write_row :: "string list \<Rightarrow> string list \<Rightarrow> CsvRow \<Rightarrow> string list" where
  "write_row csvRow [] row = csvRow"
| "write_row csvRow (header # headers) row = write_row (csvRow @ [at row header]) headers row"

fun write_loop :: "string \<Rightarrow> string list \<Rightarrow> CsvRow list \<Rightarrow> string" where
  "write_loop out headers [] = out"
| "write_loop out headers (row # rows) =
     write_loop (out @ csvWrite (write_row [] headers row)) headers rows"

definition write_csv :: "CsvFile \<Rightarrow> string" where
  "write_csv c = write_loop (csvWrite (Headers c)) (Headers c) (Rows c)"

text \<open>The texts of the tests of the package.\<close>

definition csvStr :: string where
  "csvStr = ''email,name,going'' @ [NL] @ ''alice@gmail.com,alice,no'' @ [NL]
     @ ''bob@gmail.com,bob,yes'' @ [NL] @ ''charlie@gmail.com,charlie,yes'' @ [NL]"

definition csvStrNoGoingColumn :: string where
  "csvStrNoGoingColumn = ''email,name'' @ [NL] @ ''alice@gmail.com,alice'' @ [NL]
     @ ''bob@gmail.com,bob'' @ [NL] @ ''charlie@gmail.com,charlie'' @ [NL]"

definition csvStrNoOneGoing :: string where
  "csvStrNoOneGoing = ''email,name,going'' @ [NL] @ ''alice@gmail.com,alice,n'' @ [NL]
     @ ''bob@gmail.com,bob,n'' @ [NL] @ ''charlie@gmail.com,charlie,n'' @ [NL]"

section \<open>The check of the command\<close>

text \<open>
  \<open>checkEmails\<close> of the command \<open>mailmerge\<close>: \<open>None\<close> is Go's \<open>nil\<close>. The verb \<open>%s\<close>
  renders the set with its method \<open>String\<close>.
\<close>

definition checkEmails :: "CsvFile \<Rightarrow> EmailSet \<Rightarrow> error option" where
  "checkEmails csvFile emails =
     (let unrecognizedEmails = Difference emails (AsEmailSet csvFile)
      in if 0 < fcard unrecognizedEmails
         then Some (Errorf (''Unrecognized emails: '' @ String unrecognizedEmails))
         else None)"

text \<open>The error of the loader for a row without name or email on line \<open>l\<close>.\<close>

definition lineError :: "nat \<Rightarrow> error" where
  "lineError l = Errorf (''Line '' @ decimal l @ '': name and email columns must be present'')"

text \<open>
  A record that the loader accepts as a row under the headers \<open>h\<close>: the reader parsed it
  without error, it has as many fields as there are headers, and the row made of it has a
  name and an email. \<open>row_of\<close> is that row.
\<close>

definition loads :: "string list \<Rightarrow> token \<Rightarrow> bool" where
  "loads h tok =
     (case tok of (l, dst, err) \<Rightarrow>
        err = None \<and> length dst = length h
        \<and> (case createCsvRow h dst of
              None \<Rightarrow> False
            | Some crow \<Rightarrow> row_Name crow \<noteq> [] \<and> row_Email crow \<noteq> []))"

definition row_of :: "string list \<Rightarrow> token \<Rightarrow> CsvRow" where
  "row_of h tok =
     (case tok of (l, dst, err) \<Rightarrow>
        (case createCsvRow h dst of None \<Rightarrow> Map.empty | Some crow \<Rightarrow> crow))"

text \<open>
  A string in which no carriage return stands directly in front of a line feed. (The reader
  removes such a carriage return, also inside a quoted field.)
\<close>

fun crlf_free :: "string \<Rightarrow> bool" where
  "crlf_free (a # b # s) = (\<not> (a = CR \<and> b = NL) \<and> crlf_free (b # s))"
| "crlf_free s = True"

text \<open>A table with cells that the writer quotes: a comma, quotes, leading space and a line feed.\<close>

definition quoted_sample :: CsvFile where
  "quoted_sample =
     \<lparr>Headers = [''email'', ''name'', ''note''],
      Rows = [[''email'' \<mapsto> ''a@x.com'', ''name'' \<mapsto> ''Ann, the '' @ [DQ] @ ''first'' @ [DQ],
               ''note'' \<mapsto> '' two'' @ [NL] @ ''lines''],
              [''email'' \<mapsto> ''b@x.com'', ''name'' \<mapsto> ''Bob'', ''note'' \<mapsto> []]]\<rparr>"

section \<open>The loops as list functions\<close>

lemma sel_loop_filter: "sel_loop f acc rows = acc @ filter f rows"
  by (induction rows arbitrary: acc) auto

lemma AsEmailSet_loop_eq:
  "AsEmailSet_loop acc rows = acc |\<union>| fset_of_list (map row_Email rows)"
  by (induction rows arbitrary: acc) auto

lemma WithNotGoing_loop_map:
  "WithNotGoing_loop acc rows = acc @ map row_WithNotGoing rows"
  by (induction rows arbitrary: acc) auto

lemma Rows_sel: "Rows (sel c f) = filter f (Rows c)"
  by (simp add: sel_def sel_loop_filter)

lemma Headers_sel: "Headers (sel c f) = Headers c"
  by (simp add: sel_def)

lemma Difference_eq: "Difference e other = e |-| other"
  by (auto simp add: Difference_def Contains_def)

lemma AsEmailSet_eq: "fset (AsEmailSet c) = row_Email ` set (Rows c)"
  by (simp add: AsEmailSet_def AsEmailSet_loop_eq fset_of_list.rep_eq)

lemma String_sorted:
  "\<exists>ids. sorted_wrt (<) ids \<and> set ids = fset e \<and> String e = Join ids '', ''"
proof -
  have "sorted_wrt (<) (sorted_list_of_fset e)"
    by (simp add: sorted_list_of_fset.rep_eq)
  then show ?thesis unfolding String_def by (metis sorted_list_of_fset_simps(1))
qed

lemmas sample_defs =
  roster_def alice_def bob_def charlie_def Name_def Email_def Going_def at_def
  row_Email_def row_Name_def

section \<open>Selecting rows by email\<close>

text \<open>
  Claim C1. \<open>SelectEmails\<close> keeps the rows whose email is in the set and \<open>SelectNoEmails\<close>
  the others, both in the order of the table and under its headers: the two results together
  hold every row of the table as often as the table does, each is a subsequence of the rows of
  the table, and no row is in both.
\<close>

theorem select_partition:
  "Headers (SelectEmails T S) = Headers T \<and> Headers (SelectNoEmails T S) = Headers T
   \<and> Rows (SelectEmails T S) = filter (\<lambda>row. row_Email row |\<in>| S) (Rows T)
   \<and> Rows (SelectNoEmails T S) = filter (\<lambda>row. row_Email row |\<notin>| S) (Rows T)
   \<and> mset (Rows (SelectEmails T S)) + mset (Rows (SelectNoEmails T S)) = mset (Rows T)
   \<and> subseq (Rows (SelectEmails T S)) (Rows T)
   \<and> subseq (Rows (SelectNoEmails T S)) (Rows T)
   \<and> set (Rows (SelectEmails T S)) \<inter> set (Rows (SelectNoEmails T S)) = {}"
  by (auto simp add: SelectEmails_def SelectNoEmails_def Rows_sel Headers_sel Contains_def)

theorem select_partition_witness:
  "Rows (SelectEmails roster {|''alice@gmail.com'', ''charlie@gmail.com''|}) = [alice, charlie]
   \<and> Rows (SelectNoEmails roster {|''alice@gmail.com'', ''charlie@gmail.com''|}) = [bob]
   \<and> Headers (SelectEmails roster {|''alice@gmail.com'', ''charlie@gmail.com''|})
       = [''email'', ''name'', ''going'']"
  using select_partition [of roster "{|''alice@gmail.com'', ''charlie@gmail.com''|}"]
  by (simp add: sample_defs)

section \<open>Checking the requested emails\<close>

text \<open>
  Claim C2. \<open>checkEmails\<close> fails exactly when some requested email is the email of no row,
  that is when the difference of the requested set and the set of the table is not empty. The
  message of the error then lists the emails of that difference in strictly ascending order,
  joined by a comma and a space. When the difference is empty the result is \<open>nil\<close>.
\<close>

theorem checkEmails_spec:
  "(checkEmails T S \<noteq> None \<longleftrightarrow> Difference S (AsEmailSet T) \<noteq> {||})
   \<and> fset (Difference S (AsEmailSet T)) = {e. e |\<in>| S \<and> e \<notin> row_Email ` set (Rows T)}
   \<and> (Difference S (AsEmailSet T) \<noteq> {||} \<longrightarrow>
        (\<exists>ids. sorted_wrt (<) ids \<and> set ids = fset (Difference S (AsEmailSet T))
           \<and> checkEmails T S = Some (Errorf (''Unrecognized emails: '' @ Join ids '', ''))))
   \<and> (Difference S (AsEmailSet T) = {||} \<longrightarrow> checkEmails T S = None)"
proof -
  let ?D = "Difference S (AsEmailSet T)"
  have c: "0 < fcard ?D \<longleftrightarrow> ?D \<noteq> {||}"
    by (metis fcard_fempty less_nat_zero_code neq0_conv fcard_0_eq)
  have 1: "checkEmails T S \<noteq> None \<longleftrightarrow> ?D \<noteq> {||}"
    using c by (simp add: checkEmails_def Let_def)
  have 2: "fset ?D = {e. e |\<in>| S \<and> e \<notin> row_Email ` set (Rows T)}"
    using AsEmailSet_eq[of T] by (auto simp add: Difference_eq)
  have 3: "?D \<noteq> {||} \<longrightarrow>
        (\<exists>ids. sorted_wrt (<) ids \<and> set ids = fset ?D
           \<and> checkEmails T S = Some (Errorf (''Unrecognized emails: '' @ Join ids '', '')))"
    using c String_sorted[of ?D] by (auto simp add: checkEmails_def Let_def)
  have 4: "?D = {||} \<longrightarrow> checkEmails T S = None"
    using 1 by blast
  from 1 2 3 4 show ?thesis by blast
qed

lemma checkEmails_roster:
  "checkEmails roster {|''zoe@gmail.com'', ''bob@gmail.com'', ''echo@gmail.com''|}
     = Some (Errorf ''Unrecognized emails: echo@gmail.com, zoe@gmail.com'')"
  "checkEmails roster {|''bob@gmail.com''|} = None"
  by code_simp+

theorem checkEmails_spec_witness:
  "Difference {|''zoe@gmail.com'', ''bob@gmail.com'', ''echo@gmail.com''|} (AsEmailSet roster) \<noteq> {||}
   \<and> (\<exists>ids. sorted_wrt (<) ids
        \<and> set ids = fset (Difference {|''zoe@gmail.com'', ''bob@gmail.com'', ''echo@gmail.com''|}
                           (AsEmailSet roster))
        \<and> checkEmails roster {|''zoe@gmail.com'', ''bob@gmail.com'', ''echo@gmail.com''|}
            = Some (Errorf (''Unrecognized emails: '' @ Join ids '', '')))
   \<and> Difference {|''bob@gmail.com''|} (AsEmailSet roster) = {||}
   \<and> checkEmails roster {|''bob@gmail.com''|} = None"
proof -
  let ?S = "{|''zoe@gmail.com'', ''bob@gmail.com'', ''echo@gmail.com''|}"
  have a: "Difference ?S (AsEmailSet roster) \<noteq> {||}"
    using checkEmails_spec [of roster ?S] checkEmails_roster(1) by simp
  have b: "Difference {|''bob@gmail.com''|} (AsEmailSet roster) = {||}"
    using checkEmails_spec [of roster "{|''bob@gmail.com''|}"] checkEmails_roster(2) by simp
  from a b show ?thesis
    using checkEmails_spec [of roster ?S] checkEmails_spec [of roster "{|''bob@gmail.com''|}"]
    by blast
qed

section \<open>Going or not\<close>

lemma code_N: "(of_char c = (78::nat)) = (c = CHR ''N'')"
proof -
  have "of_char (CHR ''N'') = (78::nat)" by simp
  then show ?thesis by (metis of_char_eq_iff)
qed

lemma code_n: "(of_char c = (110::nat)) = (c = CHR ''n'')"
proof -
  have "of_char (CHR ''n'') = (110::nat)" by simp
  then show ?thesis by (metis of_char_eq_iff)
qed

lemma toLowerByte_n: "toLowerByte c = CHR ''n'' \<longleftrightarrow> c = CHR ''n'' \<or> c = CHR ''N''"
proof (cases "CHR ''A'' \<le> c \<and> c \<le> CHR ''Z''")
  case True
  then have r: "65 \<le> (of_char c :: nat)" "(of_char c :: nat) \<le> 90"
    by (simp_all add: less_eq_char_def)
  then have "take_bit 8 (of_char c + (32::nat)) = of_char c + 32"
    by (simp add: take_bit_nat_eq_self_iff)
  then have "toLowerByte c = CHR ''n'' \<longleftrightarrow> of_char c + 32 = (110::nat)"
    using True by (simp add: toLowerByte_def char_of_eq_iff)
  also have "\<dots> \<longleftrightarrow> of_char c = (78::nat)" by auto
  also have "\<dots> \<longleftrightarrow> c = CHR ''N''" by (rule code_N)
  finally have "toLowerByte c = CHR ''n'' \<longleftrightarrow> c = CHR ''N''" .
  moreover have "c \<noteq> CHR ''n''" using r code_n[of c] by auto
  ultimately show ?thesis by simp
next
  case False
  then have "toLowerByte c = c" unfolding toLowerByte_def by (rule if_not_P)
  moreover have "c \<noteq> CHR ''N''" using False by auto
  ultimately show ?thesis by simp
qed

lemma HasPrefix_n:
  "HasPrefix (ToLower s) ''n'' \<longleftrightarrow> (\<exists>rest. s = CHR ''n'' # rest \<or> s = CHR ''N'' # rest)"
  by (cases s) (auto simp add: HasPrefix_def ToLower_def toLowerByte_n)

lemma row_Going_iff:
  "\<not> row_Going row \<longleftrightarrow>
     (\<exists>rest. row Going = Some (CHR ''n'' # rest) \<or> row Going = Some (CHR ''N'' # rest))"
  unfolding row_Going_def not_not HasPrefix_n by (auto simp add: at_def split: option.splits)

text \<open>
  Claim C4. A row is declining exactly when the lower case form of its going column starts
  with \<open>n\<close>, that is when the column is there and its value starts with \<open>n\<close> or \<open>N\<close>; a row
  without the column or with an empty value is attending. \<open>SelectGoing\<close> keeps the attending
  rows, in their order, under the headers of the table. In a table whose rows have no key
  beside the headers and whose headers lack the going column, it keeps every row and the
  table comes back as it is.
\<close>

theorem Going_spec:
  "(\<not> row_Going row \<longleftrightarrow> HasPrefix (ToLower (at row Going)) ''n'')
   \<and> (\<not> row_Going row \<longleftrightarrow>
        (\<exists>rest. row Going = Some (CHR ''n'' # rest) \<or> row Going = Some (CHR ''N'' # rest)))
   \<and> (row Going = None \<longrightarrow> row_Going row)
   \<and> (row Going = Some [] \<longrightarrow> row_Going row)
   \<and> Headers (SelectGoing T) = Headers T
   \<and> Rows (SelectGoing T) = filter row_Going (Rows T)
   \<and> (table_inv T \<and> Going \<notin> set (Headers T) \<longrightarrow> SelectGoing T = T)"
proof -
  have a: "\<not> row_Going row \<longleftrightarrow> HasPrefix (ToLower (at row Going)) ''n''"
    by (simp add: row_Going_def)
  note b = row_Going_iff [of row]
  have c: "row Going = None \<longrightarrow> row_Going row" using b by auto
  have d: "row Going = Some [] \<longrightarrow> row_Going row" using b by auto
  have e: "Headers (SelectGoing T) = Headers T" by (simp add: SelectGoing_def Headers_sel)
  have f: "Rows (SelectGoing T) = filter row_Going (Rows T)"
    by (simp add: SelectGoing_def Rows_sel)
  have g: "table_inv T \<and> Going \<notin> set (Headers T) \<longrightarrow> SelectGoing T = T"
  proof
    assume h: "table_inv T \<and> Going \<notin> set (Headers T)"
    have "\<forall>r \<in> set (Rows T). row_Going r"
    proof
      fix r assume "r \<in> set (Rows T)"
      with h have "Going \<notin> dom r" unfolding table_inv_def by blast
      then have "r Going = None" by blast
      then show "row_Going r" using row_Going_iff [of r] by auto
    qed
    then have "filter row_Going (Rows T) = Rows T" by simp
    with e f show "SelectGoing T = T" by simp
  qed
  from a b c d e f g show ?thesis by blast
qed

lemma table_inv_plain:
  "table_inv \<lparr>Headers = [''email'', ''name''],
     Rows = [[''email'' \<mapsto> ''a@x.com'', ''name'' \<mapsto> ''Ann'']]\<rparr>"
  by (auto simp add: table_inv_def)

theorem Going_spec_witness:
  "table_inv \<lparr>Headers = [''email'', ''name''],
     Rows = [[''email'' \<mapsto> ''a@x.com'', ''name'' \<mapsto> ''Ann'']]\<rparr>
   \<and> Going \<notin> set [''email'', ''name'']
   \<and> SelectGoing \<lparr>Headers = [''email'', ''name''],
        Rows = [[''email'' \<mapsto> ''a@x.com'', ''name'' \<mapsto> ''Ann'']]\<rparr>
      = \<lparr>Headers = [''email'', ''name''],
         Rows = [[''email'' \<mapsto> ''a@x.com'', ''name'' \<mapsto> ''Ann'']]\<rparr>
   \<and> (Map.empty :: CsvRow) Going = None \<and> row_Going Map.empty
   \<and> [Going \<mapsto> ''''] Going = Some [] \<and> row_Going [Going \<mapsto> '''']
   \<and> \<not> row_Going [Going \<mapsto> ''No'']
   \<and> Rows (SelectGoing roster) = [bob, charlie]"
proof -
  let ?T = "\<lparr>Headers = [''email'', ''name''],
     Rows = [[''email'' \<mapsto> ''a@x.com'', ''name'' \<mapsto> ''Ann'']]\<rparr>"
  have 1: "SelectGoing ?T = ?T"
    using Going_spec [of Map.empty ?T] table_inv_plain by (simp add: Going_def)
  have 2: "row_Going Map.empty" using Going_spec [of Map.empty ?T] by simp
  have 3: "row_Going [Going \<mapsto> '''']" using Going_spec [of "[Going \<mapsto> '''']" ?T] by simp
  have 4: "\<not> row_Going [Going \<mapsto> ''No'']"
    using Going_spec [of "[Going \<mapsto> ''No'']" ?T] by simp
  have 5: "Rows (SelectGoing roster) = [bob, charlie]"
    using Going_spec [of Map.empty roster] row_Going_iff [of alice] row_Going_iff [of bob]
      row_Going_iff [of charlie]
    by (simp add: roster_def alice_def bob_def charlie_def Going_def)
  from 1 2 3 4 5 table_inv_plain show ?thesis by (simp add: Going_def)
qed

section \<open>Everybody declines\<close>

lemma addGoingHeader_idem: "addGoingHeader (addGoingHeader hs) = addGoingHeader hs"
  by (simp add: addGoingHeader_def)

lemma row_WithNotGoing_idem: "row_WithNotGoing (row_WithNotGoing r) = row_WithNotGoing r"
  by (simp add: row_WithNotGoing_def)

lemma WithNotGoing_idem: "WithNotGoing (WithNotGoing T) = WithNotGoing T"
  by (simp add: WithNotGoing_def WithNotGoing_loop_map addGoingHeader_idem
        row_WithNotGoing_idem)

lemma WithNotGoing_funpow: "(WithNotGoing ^^ Suc n) T = WithNotGoing T"
  by (induction n) (simp_all add: WithNotGoing_idem)

lemma count_pos: "x \<in> set xs \<Longrightarrow> Suc 0 \<le> count_list xs x"
  by (metis count_list_0_iff Suc_leI neq0_conv)

lemma count_addGoingHeader:
  "count_list (addGoingHeader hs) Going = max 1 (count_list hs Going)"
  using count_pos [of Going hs] count_list_0_iff [of hs Going]
  by (auto simp add: addGoingHeader_def max_def)

text \<open>
  Claim C5. \<open>WithNotGoing\<close> applied twice, or any number of times that is not zero, gives
  the table that one application gives. It leaves headers that hold the going column as they
  are and adds the column at the end of headers that lack it, so the headers of the result
  hold the column once when the table had none, and as often as the table had it otherwise.
  Every row has its going column set to \<open>n\<close>.
\<close>

theorem WithNotGoing_idempotent:
  "WithNotGoing (WithNotGoing T) = WithNotGoing T
   \<and> (WithNotGoing ^^ Suc n) T = WithNotGoing T
   \<and> Headers (WithNotGoing T)
       = (if Going \<in> set (Headers T) then Headers T else Headers T @ [Going])
   \<and> count_list (Headers ((WithNotGoing ^^ Suc n) T)) Going
       = max 1 (count_list (Headers T) Going)
   \<and> Rows (WithNotGoing T) = map (\<lambda>row. row(Going \<mapsto> ''n'')) (Rows T)"
proof -
  have "count_list (Headers (WithNotGoing T)) Going = max 1 (count_list (Headers T) Going)"
    by (simp add: WithNotGoing_def count_addGoingHeader)
  then show ?thesis
    by (simp add: WithNotGoing_funpow WithNotGoing_idem del: funpow.simps)
       (simp add: WithNotGoing_def addGoingHeader_def WithNotGoing_loop_map row_WithNotGoing_def)
qed

theorem WithNotGoing_idempotent_witness:
  "Headers (WithNotGoing \<lparr>Headers = [''email'', ''name''], Rows = []\<rparr>)
     = [''email'', ''name'', ''going'']
   \<and> Headers (WithNotGoing (WithNotGoing \<lparr>Headers = [''email'', ''name''], Rows = []\<rparr>))
     = [''email'', ''name'', ''going'']
   \<and> Headers (WithNotGoing roster) = [''email'', ''name'', ''going'']"
  using WithNotGoing_idempotent [of "\<lparr>Headers = [''email'', ''name''], Rows = []\<rparr>" 0]
    WithNotGoing_idempotent [of roster 0]
  by (simp add: Going_def roster_def)

section \<open>Nobody is left\<close>

text \<open>
  Claim C6. After \<open>WithNotGoing\<close> no row is going: \<open>SelectGoing\<close> of the result has no row.
\<close>

theorem SelectGoing_WithNotGoing_empty: "Rows (SelectGoing (WithNotGoing T)) = []"
  by (simp add: SelectGoing_def Rows_sel WithNotGoing_def WithNotGoing_loop_map
        row_Going_def row_WithNotGoing_def at_def HasPrefix_def ToLower_def toLowerByte_def)

section \<open>Splitting, trimming, joining\<close>


lemma Split_last: "dropWhile (\<lambda>c. c \<noteq> sep) s = [] \<Longrightarrow> Split s sep = [s]"
  by (subst Split.simps) (simp only: list.case)

lemma Split_next:
  "dropWhile (\<lambda>c. c \<noteq> sep) s = x # rest \<Longrightarrow>
   Split s sep = takeWhile (\<lambda>c. c \<noteq> sep) s # Split rest sep"
  by (subst Split.simps) (simp only: list.case)

lemma Split_not_Nil: "Split s sep \<noteq> []"
  by (cases "dropWhile (\<lambda>c. c \<noteq> sep) s") (simp_all only: Split_last Split_next list.distinct not_False_eq_True)

lemma Join_Cons: "ys \<noteq> [] \<Longrightarrow> Join (x # ys) d = x @ d @ Join ys d"
  by (cases ys) simp_all

lemma dropWhile_no_sep: "dropWhile (\<lambda>c. c \<noteq> sep) s = [] \<Longrightarrow> sep \<notin> set s"
  by (auto simp add: dropWhile_eq_Nil_conv)

lemma dropWhile_sep:
  assumes "dropWhile (\<lambda>c. c \<noteq> sep) s = x # rest"
  shows "s = takeWhile (\<lambda>c. c \<noteq> sep) s @ sep # rest"
proof -
  from assms have "\<not> (hd (dropWhile (\<lambda>c. c \<noteq> sep) s) \<noteq> sep)"
    using hd_dropWhile[of "\<lambda>c. c \<noteq> sep" s] by fastforce
  with assms have "x = sep" by simp
  with assms show "s = takeWhile (\<lambda>c. c \<noteq> sep) s @ sep # rest"
    by (metis takeWhile_dropWhile_id)
qed

lemma Split_Join: "Join (Split s sep) [sep] = s"
proof (induction s sep rule: Split.induct)
  case (1 s sep)
  show ?case
  proof (cases "dropWhile (\<lambda>c. c \<noteq> sep) s")
    case Nil
    then show ?thesis by (simp only: Split_last Join.simps)
  next
    case (Cons x rest)
    have "Join (Split s sep) [sep] = takeWhile (\<lambda>c. c \<noteq> sep) s @ [sep] @ Join (Split rest sep) [sep]"
      by (simp only: Split_next[OF Cons] Join_Cons[OF Split_not_Nil])
    also have "\<dots> = takeWhile (\<lambda>c. c \<noteq> sep) s @ sep # rest"
      using 1[OF Cons] by simp
    also have "\<dots> = s" using dropWhile_sep[OF Cons] by simp
    finally show ?thesis .
  qed
qed

lemma Split_no_sep: "p \<in> set (Split s sep) \<Longrightarrow> sep \<notin> set p"
proof (induction s sep arbitrary: p rule: Split.induct)
  case (1 s sep)
  show ?case
  proof (cases "dropWhile (\<lambda>c. c \<noteq> sep) s")
    case Nil
    then show ?thesis using 1(2) dropWhile_no_sep[OF Nil] by (simp add: Split_last)
  next
    case (Cons x rest)
    with 1(2) have "p = takeWhile (\<lambda>c. c \<noteq> sep) s \<or> p \<in> set (Split rest sep)"
      by (simp add: Split_next[OF Cons])
    then show ?thesis
    proof
      assume "p = takeWhile (\<lambda>c. c \<noteq> sep) s"
      then show ?thesis by (auto dest: set_takeWhileD)
    next
      assume "p \<in> set (Split rest sep)"
      then show ?thesis using 1(1)[OF Cons] by simp
    qed
  qed
qed

lemma count_list_notin: "x \<notin> set xs \<Longrightarrow> count_list xs x = 0"
  by (simp add: count_list_0_iff)

lemma Split_length: "length (Split s sep) = Suc (count_list s sep)"
proof (induction s sep rule: Split.induct)
  case (1 s sep)
  show ?case
  proof (cases "dropWhile (\<lambda>c. c \<noteq> sep) s")
    case Nil
    then show ?thesis
      using count_list_notin[OF dropWhile_no_sep[OF Nil]] by (simp add: Split_last)
  next
    case (Cons x rest)
    have "sep \<notin> set (takeWhile (\<lambda>c. c \<noteq> sep) s)" by (auto dest: set_takeWhileD)
    then have "count_list (takeWhile (\<lambda>c. c \<noteq> sep) s @ sep # rest) sep = Suc (count_list rest sep)"
      by (simp add: count_list_notin)
    then have "count_list s sep = Suc (count_list rest sep)"
      using dropWhile_sep[OF Cons] by simp
    then show ?thesis using 1[OF Cons] by (simp add: Split_next[OF Cons])
  qed
qed

lemma allSpace_Nil: "allSpace []"
  unfolding allSpace_def by (rule exI[of _ "[]"]) simp

lemma allSpace_append: "allSpace a \<Longrightarrow> allSpace b \<Longrightarrow> allSpace (a @ b)"
  unfolding allSpace_def
  by (metis concat_append set_append Un_subset_iff)

lemma allSpace_rune: "w \<in> set spaceRunes \<Longrightarrow> allSpace w"
  unfolding allSpace_def by (rule exI[of _ "[w]"]) simp

lemma leadingSpace_split:
  assumes "leadingSpace s \<noteq> 0"
  shows "allSpace (take (leadingSpace s) s)"
proof -
  from assms obtain w where w: "find (\<lambda>w. prefix w s) spaceRunes = Some w"
    by (auto simp add: leadingSpace_def split: option.splits)
  then have "prefix w s" "w \<in> set spaceRunes"
    by (auto simp add: find_Some_iff)
  moreover from w have "leadingSpace s = length w" by (simp add: leadingSpace_def)
  ultimately show ?thesis by (auto simp add: prefix_def allSpace_rune)
qed

lemma trailingSpace_split:
  assumes "trailingSpace s \<noteq> 0"
  shows "allSpace (drop (length s - trailingSpace s) s)"
proof -
  from assms obtain w where w: "find (\<lambda>w. suffix w s) spaceRunes = Some w"
    by (auto simp add: trailingSpace_def split: option.splits)
  then have "suffix w s" "w \<in> set spaceRunes"
    by (auto simp add: find_Some_iff)
  moreover from w have "trailingSpace s = length w" by (simp add: trailingSpace_def)
  ultimately show ?thesis by (auto simp add: suffix_def allSpace_rune)
qed

lemma TrimLeftSpace_cut: "\<exists>l. s = l @ TrimLeftSpace s \<and> allSpace l"
proof (induction s rule: TrimLeftSpace.induct)
  case (1 s)
  show ?case
  proof (cases "leadingSpace s = 0")
    case True
    then show ?thesis by (simp add: TrimLeftSpace.simps[of s] allSpace_Nil)
  next
    case False
    from 1[OF False] obtain l where
      l: "drop (leadingSpace s) s = l @ TrimLeftSpace (drop (leadingSpace s) s)" "allSpace l"
      by blast
    have "s = take (leadingSpace s) s @ drop (leadingSpace s) s" by simp
    then have "s = (take (leadingSpace s) s @ l) @ TrimLeftSpace s"
      using l(1) False by (simp add: TrimLeftSpace.simps[of s])
    moreover have "allSpace (take (leadingSpace s) s @ l)"
      using leadingSpace_split[OF False] l(2) by (rule allSpace_append)
    ultimately show ?thesis by blast
  qed
qed

lemma TrimRightSpace_cut: "\<exists>r. s = TrimRightSpace s @ r \<and> allSpace r"
proof (induction s rule: TrimRightSpace.induct)
  case (1 s)
  show ?case
  proof (cases "trailingSpace s = 0")
    case True
    then show ?thesis by (simp add: TrimRightSpace.simps[of s] allSpace_Nil)
  next
    case False
    let ?t = "take (length s - trailingSpace s) s"
    from 1[OF False] obtain r where r: "?t = TrimRightSpace ?t @ r" "allSpace r"
      by blast
    have "s = ?t @ drop (length s - trailingSpace s) s" by simp
    then have "s = (TrimRightSpace ?t @ r) @ drop (length s - trailingSpace s) s"
      using r(1) by simp
    moreover have "TrimRightSpace s = TrimRightSpace ?t"
      using False by (simp add: TrimRightSpace.simps[of s])
    ultimately have "s = TrimRightSpace s @ (r @ drop (length s - trailingSpace s) s)"
      by simp
    moreover have "allSpace (r @ drop (length s - trailingSpace s) s)"
      using r(2) trailingSpace_split[OF False] by (rule allSpace_append)
    ultimately show ?thesis by blast
  qed
qed

lemma TrimLeftSpace_done: "leadingSpace (TrimLeftSpace s) = 0"
  by (induction s rule: TrimLeftSpace.induct) (simp add: TrimLeftSpace.simps)

lemma TrimRightSpace_done: "trailingSpace (TrimRightSpace s) = 0"
  by (induction s rule: TrimRightSpace.induct) (simp add: TrimRightSpace.simps)

lemma find_SomeD: "find P xs = Some w \<Longrightarrow> w \<in> set xs \<and> P w"
  by (induction xs) (auto split: if_splits)

lemma leadingSpace_zero_iff: "leadingSpace s = 0 \<longleftrightarrow> (\<forall>w \<in> set spaceRunes. \<not> prefix w s)"
proof
  assume "leadingSpace s = 0"
  moreover have "[] \<notin> set spaceRunes" by (simp add: spaceRunes_def)
  ultimately have "find (\<lambda>w. prefix w s) spaceRunes = None"
    by (cases "find (\<lambda>w. prefix w s) spaceRunes")
       (auto simp add: leadingSpace_def dest: find_SomeD)
  then show "\<forall>w \<in> set spaceRunes. \<not> prefix w s" by (simp add: find_None_iff)
next
  assume "\<forall>w \<in> set spaceRunes. \<not> prefix w s"
  then have "find (\<lambda>w. prefix w s) spaceRunes = None" by (simp add: find_None_iff)
  then show "leadingSpace s = 0" by (simp add: leadingSpace_def)
qed

lemma leadingSpace_prefix: "prefix t s \<Longrightarrow> leadingSpace s = 0 \<Longrightarrow> leadingSpace t = 0"
  unfolding leadingSpace_zero_iff by (meson prefix_order.order_trans)

lemma TrimRightSpace_prefix: "prefix (TrimRightSpace s) s"
  using TrimRightSpace_cut[of s] by (metis prefixI)

lemma TrimSpace_cut:
  "\<exists>l r. s = l @ TrimSpace s @ r \<and> allSpace l \<and> allSpace r"
proof -
  obtain l where l: "s = l @ TrimLeftSpace s" "allSpace l" using TrimLeftSpace_cut by blast
  obtain r where r: "TrimLeftSpace s = TrimSpace s @ r" "allSpace r"
    unfolding TrimSpace_def using TrimRightSpace_cut by blast
  from l r show ?thesis by metis
qed

lemma TrimSpace_done: "leadingSpace (TrimSpace s) = 0 \<and> trailingSpace (TrimSpace s) = 0"
  unfolding TrimSpace_def
  using leadingSpace_prefix[OF TrimRightSpace_prefix TrimLeftSpace_done] TrimRightSpace_done
  by simp


section \<open>Sets of emails from text\<close>

text \<open>
  Claim C9. \<open>NewEmailSet\<close> is the set of the trimmed pieces of its argument. The pieces
  are what lies between the commas: joined by commas they give the argument back, none holds
  a comma, and there is one more piece than there are commas. Trimming a piece removes white
  space in front and behind only, and leaves a string that neither starts nor ends with white
  space. The empty text gives the set whose only element is the empty string. \<open>String\<close>
  lists the elements of a set in strictly ascending order, joined by a comma and a space.
\<close>

theorem NewEmailSet_spec:
  "fset (NewEmailSet s) = TrimSpace ` set (Split s CHR '','')
   \<and> Join (Split s CHR '','') '','' = s
   \<and> length (Split s CHR '','') = Suc (count_list s CHR '','')
   \<and> (\<forall>p \<in> set (Split s CHR '','').
         CHR '','' \<notin> set p
         \<and> (\<exists>l r. p = l @ TrimSpace p @ r \<and> allSpace l \<and> allSpace r)
         \<and> leadingSpace (TrimSpace p) = 0 \<and> trailingSpace (TrimSpace p) = 0)
   \<and> NewEmailSet [] = {|[]|}
   \<and> (\<exists>ids. sorted_wrt (<) ids \<and> set ids = fset e \<and> String e = Join ids '', '')"
proof -
  have 1: "fset (NewEmailSet s) = TrimSpace ` set (Split s CHR '','')"
    by (simp add: NewEmailSet_def fset_of_list.rep_eq)
  have 2: "Join (Split s CHR '','') '','' = s" by (rule Split_Join)
  have 3: "length (Split s CHR '','') = Suc (count_list s CHR '','')" by (rule Split_length)
  have 4: "\<forall>p \<in> set (Split s CHR '','').
         CHR '','' \<notin> set p
         \<and> (\<exists>l r. p = l @ TrimSpace p @ r \<and> allSpace l \<and> allSpace r)
         \<and> leadingSpace (TrimSpace p) = 0 \<and> trailingSpace (TrimSpace p) = 0"
    using Split_no_sep TrimSpace_cut TrimSpace_done by blast
  have 5: "NewEmailSet [] = {|[]|}"
    by (simp add: NewEmailSet_def Split.simps TrimSpace_def TrimLeftSpace.simps
          TrimRightSpace.simps leadingSpace_def trailingSpace_def spaceRunes_def)
  note 6 = String_sorted [of e]
  from 1 2 3 4 5 6 show ?thesis by blast
qed

lemma NewEmailSet_sample:
  "NewEmailSet '' bob@gmail.com ,alice@gmail.com,bob@gmail.com''
     = {|''alice@gmail.com'', ''bob@gmail.com''|}"
  "String {|''bob@gmail.com'', ''alice@gmail.com''|} = ''alice@gmail.com, bob@gmail.com''"
  "Split '' bob@gmail.com ,alice@gmail.com,bob@gmail.com'' CHR '',''
     = ['' bob@gmail.com '', ''alice@gmail.com'', ''bob@gmail.com'']"
  "TrimSpace '' bob@gmail.com '' = ''bob@gmail.com''"
  by code_simp+

theorem NewEmailSet_spec_witness:
  "'' bob@gmail.com '' \<in> set (Split '' bob@gmail.com ,alice@gmail.com,bob@gmail.com'' CHR '','')
   \<and> CHR '','' \<notin> set '' bob@gmail.com ''
   \<and> leadingSpace (TrimSpace '' bob@gmail.com '') = 0
   \<and> trailingSpace (TrimSpace '' bob@gmail.com '') = 0
   \<and> TrimSpace '' bob@gmail.com '' = ''bob@gmail.com''
   \<and> fset (NewEmailSet '' bob@gmail.com ,alice@gmail.com,bob@gmail.com'')
       = {''alice@gmail.com'', ''bob@gmail.com''}"
proof -
  let ?s = "'' bob@gmail.com ,alice@gmail.com,bob@gmail.com''"
  have m: "'' bob@gmail.com '' \<in> set (Split ?s CHR '','')"
    by (simp add: NewEmailSet_sample(3))
  from NewEmailSet_spec [of ?s "{||}"]
  have "\<forall>p \<in> set (Split ?s CHR '','').
         CHR '','' \<notin> set p
         \<and> (\<exists>l r. p = l @ TrimSpace p @ r \<and> allSpace l \<and> allSpace r)
         \<and> leadingSpace (TrimSpace p) = 0 \<and> trailingSpace (TrimSpace p) = 0"
    by blast
  with m have "CHR '','' \<notin> set '' bob@gmail.com ''
     \<and> leadingSpace (TrimSpace '' bob@gmail.com '') = 0
     \<and> trailingSpace (TrimSpace '' bob@gmail.com '') = 0"
    by blast
  with m show ?thesis
    by (simp add: NewEmailSet_sample(1) NewEmailSet_sample(4))
qed

section \<open>One round of the loader\<close>

lemma Read_Nil:
  "Read \<lparr>pending = [], FieldsPerRecord = k, fieldLine = f\<rparr>
     = (([], Some EOF), \<lparr>pending = [], FieldsPerRecord = k, fieldLine = f\<rparr>)"
  by (simp add: Read_def)

lemma Read_bad:
  "Read \<lparr>pending = (l, dst, Some e) # ts, FieldsPerRecord = k, fieldLine = f\<rparr>
     = ((dst, Some (ParseError l e)),
        \<lparr>pending = ts, FieldsPerRecord = (if 0 < k then k else length dst), fieldLine = l\<rparr>)"
  by (simp add: Read_def)

lemma Read_ragged:
  "0 < k \<Longrightarrow> length dst \<noteq> k \<Longrightarrow>
   Read \<lparr>pending = (l, dst, None) # ts, FieldsPerRecord = k, fieldLine = f\<rparr>
     = ((dst, Some (ParseError l ErrFieldCount)),
        \<lparr>pending = ts, FieldsPerRecord = k, fieldLine = l\<rparr>)"
  by (simp add: Read_def)

lemma Read_row:
  "0 < k \<Longrightarrow> length dst = k \<Longrightarrow>
   Read \<lparr>pending = (l, dst, None) # ts, FieldsPerRecord = k, fieldLine = f\<rparr>
     = ((dst, None), \<lparr>pending = ts, FieldsPerRecord = k, fieldLine = l\<rparr>)"
  by (simp add: Read_def)

lemma Read_first:
  "Read \<lparr>pending = (l, dst, None) # ts, FieldsPerRecord = 0, fieldLine = f\<rparr>
     = ((dst, None), \<lparr>pending = ts, FieldsPerRecord = length dst, fieldLine = l\<rparr>)"
  by (simp add: Read_def)

lemma loop_Nil:
  "readCsv_loop h res \<lparr>pending = [], FieldsPerRecord = k, fieldLine = f\<rparr>
     = Loaded \<lparr>Headers = h, Rows = res\<rparr>"
  by (subst readCsv_loop.simps) (simp add: Read_Nil)

lemma loop_bad:
  "readCsv_loop h res \<lparr>pending = (l, dst, Some e) # ts, FieldsPerRecord = k, fieldLine = f\<rparr>
     = Fails (ParseError l e)"
  by (subst readCsv_loop.simps) (simp add: Read_bad)

lemma loop_ragged:
  "0 < k \<Longrightarrow> length dst \<noteq> k \<Longrightarrow>
   readCsv_loop h res \<lparr>pending = (l, dst, None) # ts, FieldsPerRecord = k, fieldLine = f\<rparr>
     = Fails (ParseError l ErrFieldCount)"
  by (subst readCsv_loop.simps) (simp add: Read_ragged)

lemma loop_row:
  "0 < k \<Longrightarrow> length dst = k \<Longrightarrow>
   readCsv_loop h res \<lparr>pending = (l, dst, None) # ts, FieldsPerRecord = k, fieldLine = f\<rparr>
     = (case createCsvRow h dst of
          None \<Rightarrow> Panics
        | Some crow \<Rightarrow>
            if row_Name crow = [] \<or> row_Email crow = [] then Fails (lineError l)
            else readCsv_loop h (res @ [crow])
                   \<lparr>pending = ts, FieldsPerRecord = k, fieldLine = l\<rparr>)"
  by (subst readCsv_loop.simps)
     (simp add: Read_row FieldPos0_def lineError_def Let_def split: option.splits)

lemma readCsv_tokens:
  "readCsv text =
     (case tokenize 0 (readLines text) of
        [] \<Rightarrow> Fails EOF
      | (l, h, Some e) # ts \<Rightarrow> Fails (ParseError l e)
      | (l, h, None) # ts \<Rightarrow>
          readCsv_loop h [] \<lparr>pending = ts, FieldsPerRecord = length h, fieldLine = l\<rparr>)"
  by (simp add: readCsv_def NewReader_def Read_def split: list.splits option.splits)

section \<open>Rows from records\<close>

lemma createCsvRow_loop_Some:
  "i + length hs \<le> length row \<Longrightarrow>
   createCsvRow_loop res i hs row = Some (res ++ map_of (rev (zip hs (drop i row))))"
proof (induction hs arbitrary: res i)
  case Nil
  then show ?case by simp
next
  case (Cons c cs)
  then have i: "i < length row" by simp
  then have d: "drop i row = row ! i # drop (Suc i) row" by (simp add: Cons_nth_drop_Suc)
  have "createCsvRow_loop res i (c # cs) row
          = createCsvRow_loop (res(c \<mapsto> row ! i)) (Suc i) cs row"
    using i by simp
  also have "\<dots> = Some (res(c \<mapsto> row ! i) ++ map_of (rev (zip cs (drop (Suc i) row))))"
    using Cons.prems by (intro Cons.IH) simp
  also have "res(c \<mapsto> row ! i) ++ map_of (rev (zip cs (drop (Suc i) row)))
          = res ++ map_of (rev (zip (c # cs) (drop i row)))"
    by (simp add: d map_add_upd_left fun_eq_iff map_add_def split: option.splits)
  finally show ?case .
qed

lemma createCsvRow_loop_None:
  "length row < i + length hs \<Longrightarrow> i \<le> length row \<Longrightarrow>
   createCsvRow_loop res i hs row = None"
  by (induction hs arbitrary: res i) auto

lemma createCsvRow_Some:
  "length h \<le> length row \<Longrightarrow> createCsvRow h row = Some (map_of (rev (zip h row)))"
  using createCsvRow_loop_Some [of 0 h row Map.empty] by (simp add: createCsvRow_def)

lemma createCsvRow_None_iff: "createCsvRow h row = None \<longleftrightarrow> length row < length h"
proof (cases "length row < length h")
  case True
  then show ?thesis using createCsvRow_loop_None [of row 0 h Map.empty]
    by (simp add: createCsvRow_def)
next
  case False
  then show ?thesis using createCsvRow_Some [of h row] by simp
qed

lemma dom_createCsvRow:
  "length h = length row \<Longrightarrow> dom (map_of (rev (zip h row))) = set h"
  by (simp add: dom_map_of_conv_image_fst flip: set_map zip_rev)

lemma createCsvRow_nth:
  assumes "length h = length row" "distinct h" "i < length h"
  shows "map_of (rev (zip h row)) (h ! i) = Some (row ! i)"
proof -
  have "distinct (map fst (rev (zip h row)))" using assms(1,2) by (simp add: rev_map [symmetric])
  moreover have "(h ! i, row ! i) \<in> set (rev (zip h row))"
    using assms(1,3) by (auto simp add: set_zip)
  ultimately show ?thesis by (rule map_of_is_SomeI)
qed

section \<open>The loop of the loader over the records\<close>

lemma loop_fieldLine:
  assumes "0 < k"
  shows "readCsv_loop h res \<lparr>pending = ts, FieldsPerRecord = k, fieldLine = f\<rparr>
       = readCsv_loop h res \<lparr>pending = ts, FieldsPerRecord = k, fieldLine = f'\<rparr>"
proof (cases ts)
  case Nil
  then show ?thesis by (simp add: loop_Nil)
next
  case (Cons tok ts')
  obtain l dst err where tok: "tok = (l, dst, err)" by (cases tok) auto
  show ?thesis
  proof (cases err)
    case (Some e)
    then show ?thesis by (simp add: Cons tok loop_bad)
  next
    case None
    show ?thesis
    proof (cases "length dst = k")
      case True
      then show ?thesis using assms by (simp add: Cons tok None loop_row)
    next
      case False
      then show ?thesis using assms by (simp add: Cons tok None loop_ragged)
    qed
  qed
qed

lemma loads_row:
  assumes "loads h (l, dst, err)"
  shows "err = None" "length dst = length h"
    "createCsvRow h dst = Some (row_of h (l, dst, err))"
    "row_Name (row_of h (l, dst, err)) \<noteq> []" "row_Email (row_of h (l, dst, err)) \<noteq> []"
  using assms by (auto simp add: loads_def row_of_def split: option.splits)

lemma loop_loads:
  assumes "0 < length h" "loads h tok"
  shows "readCsv_loop h res \<lparr>pending = tok # ts, FieldsPerRecord = length h, fieldLine = f\<rparr>
       = readCsv_loop h (res @ [row_of h tok])
           \<lparr>pending = ts, FieldsPerRecord = length h, fieldLine = f\<rparr>"
proof -
  obtain l dst err where tok: "tok = (l, dst, err)" by (cases tok) auto
  note r = loads_row [OF assms(2) [unfolded tok]]
  have "readCsv_loop h res \<lparr>pending = tok # ts, FieldsPerRecord = length h, fieldLine = f\<rparr>
      = readCsv_loop h (res @ [row_of h tok])
           \<lparr>pending = ts, FieldsPerRecord = length h, fieldLine = l\<rparr>"
    using assms(1) r by (simp add: tok loop_row)
  then show ?thesis using loop_fieldLine [OF assms(1)] by simp
qed

lemma loop_good:
  assumes "0 < length h" "\<forall>tok \<in> set good. loads h tok"
  shows "readCsv_loop h res \<lparr>pending = good @ ts, FieldsPerRecord = length h, fieldLine = f\<rparr>
       = readCsv_loop h (res @ map (row_of h) good)
           \<lparr>pending = ts, FieldsPerRecord = length h, fieldLine = f\<rparr>"
  using assms(2)
proof (induction good arbitrary: res)
  case Nil
  then show ?case by simp
next
  case (Cons tok good)
  then show ?case using loop_loads [OF assms(1), of tok] by simp
qed

text \<open>What the loop answers at a record that the loader does not accept.\<close>

lemma loop_reject:
  assumes "0 < length h" "\<not> loads h (l, dst, err)"
  shows "readCsv_loop h res
           \<lparr>pending = (l, dst, err) # ts, FieldsPerRecord = length h, fieldLine = f\<rparr>
       = (case err of
            Some e \<Rightarrow> Fails (ParseError l e)
          | None \<Rightarrow> if length dst \<noteq> length h then Fails (ParseError l ErrFieldCount)
                    else Fails (lineError l))"
proof (cases err)
  case (Some e)
  then show ?thesis by (simp add: loop_bad)
next
  case None
  show ?thesis
  proof (cases "length dst = length h")
    case False
    then show ?thesis using assms(1) by (simp add: None loop_ragged)
  next
    case True
    then have "createCsvRow h dst \<noteq> None" by (simp add: createCsvRow_None_iff)
    then obtain crow where c: "createCsvRow h dst = Some crow" by auto
    with assms(2) True None have "row_Name crow = [] \<or> row_Email crow = []"
      by (auto simp add: loads_def)
    then show ?thesis using assms(1) True c by (auto simp add: None loop_row)
  qed
qed

lemma loop_reject_Fails:
  assumes "0 < length h" "\<not> loads h tok"
  shows "\<exists>e. readCsv_loop h res
           \<lparr>pending = tok # ts, FieldsPerRecord = length h, fieldLine = f\<rparr> = Fails e"
proof -
  obtain l dst err where tok: "tok = (l, dst, err)" by (cases tok) auto
  show ?thesis using loop_reject [OF assms(1) assms(2) [unfolded tok]]
    by (auto simp add: tok split: option.splits)
qed

lemma loop_all_good:
  assumes "0 < length h" "\<forall>tok \<in> set ts. loads h tok"
  shows "readCsv_loop h res \<lparr>pending = ts, FieldsPerRecord = length h, fieldLine = f\<rparr>
       = Loaded \<lparr>Headers = h, Rows = res @ map (row_of h) ts\<rparr>"
  using loop_good [OF assms, of res "[]" f] by (simp add: loop_Nil)

lemma loop_some_bad:
  assumes "0 < length h" "\<not> (\<forall>tok \<in> set ts. loads h tok)"
  shows "\<exists>e. readCsv_loop h res
           \<lparr>pending = ts, FieldsPerRecord = length h, fieldLine = f\<rparr> = Fails e"
proof -
  from assms(2) obtain good tok rest where
    s: "ts = good @ tok # rest" "\<not> loads h tok" "\<forall>t \<in> set good. loads h t"
    using split_list_first_prop [of ts "\<lambda>t. \<not> loads h t"] by auto
  show ?thesis
    unfolding s(1) loop_good [OF assms(1) s(3)]
    by (rule loop_reject_Fails [OF assms(1) s(2)])
qed

lemma loop_cases:
  assumes "0 < length h"
  shows "readCsv_loop h res \<lparr>pending = ts, FieldsPerRecord = length h, fieldLine = f\<rparr>
           = Loaded \<lparr>Headers = h, Rows = res @ map (row_of h) ts\<rparr>
           \<and> (\<forall>tok \<in> set ts. loads h tok)
       \<or> (\<exists>e. readCsv_loop h res
               \<lparr>pending = ts, FieldsPerRecord = length h, fieldLine = f\<rparr> = Fails e)
           \<and> \<not> (\<forall>tok \<in> set ts. loads h tok)"
  using loop_all_good [OF assms] loop_some_bad [OF assms] by blast

section \<open>The records of an input\<close>

lemma parse_nonempty:
  "fst (snd (parseField line rest rec n)) = None \<longrightarrow> fst (parseField line rest rec n) \<noteq> []"
  "fst (snd (parseQuoted line rest buf rec n)) = None
     \<longrightarrow> fst (parseQuoted line rest buf rec n) \<noteq> []"
proof (induction line rest rec n and line rest buf rec n rule: parseField_parseQuoted.induct)
  case (1 line rest rec n)
  then show ?case
    by (simp add: parseField.simps [of line rest rec n] Let_def)
next
  case (2 line rest buf rec n)
  then show ?case
    by (simp add: parseQuoted.simps [of line rest buf rec n] Let_def split: list.splits)
qed

lemma tokenize_Nil: "dropWhile blank lines = [] \<Longrightarrow> tokenize numLine lines = []"
  by (subst tokenize.simps) (simp only: list.case)

lemma tokenize_Cons:
  assumes "dropWhile blank lines = line # rest"
  shows "tokenize numLine lines =
     (let recLine = numLine + length (takeWhile blank lines) + 1;
          (dst, err, n) = parseField line rest [] 0
      in (recLine, dst, err) # tokenize (recLine + n) (drop n rest))"
  by (subst tokenize.simps) (simp only: assms list.case)

lemma tokenize_fields:
  "(l, dst, None) \<in> set (tokenize numLine lines) \<Longrightarrow> dst \<noteq> []"
proof (induction numLine lines rule: tokenize.induct)
  case (1 numLine lines)
  show ?case
  proof (cases "dropWhile blank lines")
    case Nil
    then show ?thesis using 1(2) by (simp add: tokenize_Nil)
  next
    case (Cons line rest)
    obtain d e n where p: "parseField line rest [] 0 = (d, e, n)"
      by (cases "parseField line rest [] 0") auto
    let ?recLine = "numLine + length (takeWhile blank lines) + 1"
    from 1(2) have "(l, dst, None) = (?recLine, d, e)
        \<or> (l, dst, None) \<in> set (tokenize (?recLine + n) (drop n rest))"
      by (simp add: tokenize_Cons [OF Cons] p Let_def)
    then show ?thesis
    proof
      assume "(l, dst, None) = (?recLine, d, e)"
      then show ?thesis using parse_nonempty(1) [of line rest "[]" 0] p by auto
    next
      assume "(l, dst, None) \<in> set (tokenize (?recLine + n) (drop n rest))"
      then show ?thesis
        by (rule 1(1) [OF Cons refl refl p [symmetric] refl])
    qed
  qed
qed


text \<open>The result of loading, from the records of the input.\<close>

lemma readCsv_cases:
  "tokenize 0 (readLines text) = [] \<and> readCsv text = Fails EOF
   \<or> (\<exists>l h e ts. tokenize 0 (readLines text) = (l, h, Some e) # ts
         \<and> readCsv text = Fails (ParseError l e))
   \<or> (\<exists>l h ts. tokenize 0 (readLines text) = (l, h, None) # ts \<and> h \<noteq> []
         \<and> (\<forall>tok \<in> set ts. loads h tok)
         \<and> readCsv text = Loaded \<lparr>Headers = h, Rows = map (row_of h) ts\<rparr>)
   \<or> (\<exists>l h ts e. tokenize 0 (readLines text) = (l, h, None) # ts \<and> h \<noteq> []
         \<and> \<not> (\<forall>tok \<in> set ts. loads h tok)
         \<and> readCsv text = Fails e)"
proof (cases "tokenize 0 (readLines text)")
  case Nil
  then show ?thesis by (simp add: readCsv_tokens)
next
  case (Cons tok ts)
  obtain l h err where tok: "tok = (l, h, err)" by (cases tok) auto
  show ?thesis
  proof (cases err)
    case (Some e)
    then show ?thesis using Cons tok by (simp add: readCsv_tokens)
  next
    case None
    have "(l, h, None) \<in> set (tokenize 0 (readLines text))" using Cons tok None by simp
    then have h: "h \<noteq> []" by (rule tokenize_fields)
    then have k: "0 < length h" by simp
    have r: "readCsv text
        = readCsv_loop h [] \<lparr>pending = ts, FieldsPerRecord = length h, fieldLine = l\<rparr>"
      using Cons tok None by (simp add: readCsv_tokens)
    show ?thesis using loop_cases [OF k, of "[]" ts l] Cons tok None h r by auto
  qed
qed

section \<open>Rows with another number of fields\<close>

lemma sample_tokens:
  "tokenize 0 (readLines (''email,name'' @ [NL] @ ''a@x.com,Ann,yes'' @ [NL]))
     = [(1, [''email'', ''name''], None), (2, [''a@x.com'', ''Ann'', ''yes''], None)]"
  "tokenize 0 (readLines (''email,name,going'' @ [NL] @ ''a@x.com,Ann'' @ [NL]))
     = [(1, [''email'', ''name'', ''going''], None), (2, [''a@x.com'', ''Ann''], None)]"
  "tokenize 0 (readLines (''email,name'' @ [NL] @ ''a@x.com,Ann'' @ [NL]
                           @ ''b@x.com,Bob,yes'' @ [NL]))
     = [(1, [''email'', ''name''], None), (2, [''a@x.com'', ''Ann''], None),
        (3, [''b@x.com'', ''Bob'', ''yes''], None)]"
  "tokenize 0 (readLines (''email,name'' @ [NL] @ ''a@x.com,Ann'' @ [NL] @ [NL]
                           @ ''b@x.com,'' @ [NL] @ ''c@x.com,Cy'' @ [NL]))
     = [(1, [''email'', ''name''], None), (2, [''a@x.com'', ''Ann''], None),
        (4, [''b@x.com'', []], None), (5, [''c@x.com'', ''Cy''], None)]"
  "tokenize 0 (readLines (''email,name'' @ [NL])) = [(1, [''email'', ''name''], None)]"
  by code_simp+

lemma sample_loads:
  "loads [''email'', ''name''] (2, [''a@x.com'', ''Ann''], None)"
  by code_simp

lemma sample_readCsv:
  "readCsv (''email,name'' @ [NL] @ ''a@x.com,Ann,yes'' @ [NL]) = Fails (ParseError 2 ErrFieldCount)"
  "readCsv (''email,name,going'' @ [NL] @ ''a@x.com,Ann'' @ [NL]) = Fails (ParseError 2 ErrFieldCount)"
  by (simp_all only: readCsv_tokens sample_tokens list.case prod.case option.case)
     (simp_all add: loop_ragged)

lemma Read_checked:
  assumes "0 < FieldsPerRecord rd" "Read rd = ((row, None), rd')"
  shows "length row = FieldsPerRecord rd \<and> FieldsPerRecord rd' = FieldsPerRecord rd"
  using assms
  by (cases "pending rd") (auto simp add: Read_def Let_def split: if_splits option.splits)

lemma readCsv_not_Panics: "readCsv text \<noteq> Panics"
  using readCsv_cases [of "text"] by auto

lemma readCsv_Loaded_uniform:
  assumes "readCsv text = Loaded T" "tok \<in> set (tokenize 0 (readLines text))"
  shows "length (fst (snd tok)) = length (Headers T)"
proof -
  from readCsv_cases [of "text"] assms(1) obtain l h ts where
    t: "tokenize 0 (readLines text) = (l, h, None) # ts" "\<forall>tok \<in> set ts. loads h tok"
      "readCsv text = Loaded \<lparr>Headers = h, Rows = map (row_of h) ts\<rparr>"
    by auto
  from t(3) assms(1) have h: "Headers T = h" by auto
  from assms(2) t(1) have "tok = (l, h, None) \<or> tok \<in> set ts" by simp
  then show ?thesis
  proof
    assume "tok = (l, h, None)"
    then show ?thesis by (simp add: h)
  next
    assume "tok \<in> set ts"
    with t(2) have "loads h tok" by blast
    then show ?thesis by (cases tok) (simp add: loads_def h)
  qed
qed

lemma readCsv_ragged_Fails:
  assumes "tokenize 0 (readLines text) = (l, h, None) # ts" "tok \<in> set ts"
    "length (fst (snd tok)) \<noteq> length h"
  shows "\<exists>e. readCsv text = Fails e"
proof -
  obtain a dst err where tok: "tok = (a, dst, err)" by (cases tok) auto
  with assms(3) have "\<not> loads h tok" by (simp add: loads_def)
  with assms(2) have "\<not> (\<forall>tok \<in> set ts. loads h tok)" by blast
  then show ?thesis using readCsv_cases [of "text"] assms(1) by auto
qed

text \<open>
  Claim C10. Loading never panics. When some record after the first has a number of fields
  that differs from the number of fields of the first, loading returns an error; a file is
  returned only when every record has as many fields as there are headers. Once
  \<open>FieldsPerRecord\<close> is set, \<open>Read\<close> returns without error only records with that many
  fields, and \<open>createCsvRow\<close> reads out of the bounds of a row only when the row is
  shorter than the headers.
\<close>

theorem readCsv_uniform:
  "readCsv text \<noteq> Panics
   \<and> (tokenize 0 (readLines text) = (l, h, None) # ts \<and> tok \<in> set ts
        \<and> length (fst (snd tok)) \<noteq> length h \<longrightarrow> (\<exists>e. readCsv text = Fails e))
   \<and> (readCsv text = Loaded T \<and> tok' \<in> set (tokenize 0 (readLines text))
        \<longrightarrow> length (fst (snd tok')) = length (Headers T))
   \<and> (0 < FieldsPerRecord rd \<and> Read rd = ((row, None), rd')
        \<longrightarrow> length row = FieldsPerRecord rd \<and> FieldsPerRecord rd' = FieldsPerRecord rd)
   \<and> (createCsvRow headers record = None \<longleftrightarrow> length record < length headers)"
  using readCsv_not_Panics readCsv_ragged_Fails readCsv_Loaded_uniform Read_checked
    createCsvRow_None_iff
  by blast

theorem readCsv_uniform_witness:
  "tokenize 0 (readLines (''email,name'' @ [NL] @ ''a@x.com,Ann,yes'' @ [NL]))
     = (1, [''email'', ''name''], None) # [(2, [''a@x.com'', ''Ann'', ''yes''], None)]
   \<and> (2, [''a@x.com'', ''Ann'', ''yes''], None) \<in> set [(2, [''a@x.com'', ''Ann'', ''yes''], None)]
   \<and> length (fst (snd (2::nat, [''a@x.com'', ''Ann'', ''yes''], None :: csv_err option)))
        \<noteq> length [''email'', ''name'']
   \<and> (\<exists>e. readCsv (''email,name'' @ [NL] @ ''a@x.com,Ann,yes'' @ [NL]) = Fails e)
   \<and> 0 < FieldsPerRecord \<lparr>pending = [(2, [''a'', ''b''], None)], FieldsPerRecord = 2, fieldLine = 1\<rparr>
   \<and> Read \<lparr>pending = [(2, [''a'', ''b''], None)], FieldsPerRecord = 2, fieldLine = 1\<rparr>
       = (([''a'', ''b''], None), \<lparr>pending = [], FieldsPerRecord = 2, fieldLine = 2\<rparr>)"
proof -
  let ?text = "''email,name'' @ [NL] @ ''a@x.com,Ann,yes'' @ [NL]"
  let ?tok = "(2::nat, [''a@x.com'', ''Ann'', ''yes''], None :: csv_err option)"
  have t: "tokenize 0 (readLines ?text) = (1, [''email'', ''name''], None) # [?tok]"
    using sample_tokens(1) by simp
  have r: "Read \<lparr>pending = [(2, [''a'', ''b''], None)], FieldsPerRecord = 2, fieldLine = 1\<rparr>
       = (([''a'', ''b''], None), \<lparr>pending = [], FieldsPerRecord = 2, fieldLine = 2\<rparr>)"
    by (simp add: Read_def)
  have "\<exists>e. readCsv ?text = Fails e"
    using readCsv_uniform [of ?text 1 "[''email'', ''name'']" "[?tok]" ?tok] t by simp
  with t r show ?thesis by simp
qed

section \<open>What the loader does with short and long rows\<close>

lemma readCsv_first_reject:
  assumes "tokenize 0 (readLines text) = (l0, h, None) # good @ (l, dst, err) # ts"
    "\<forall>tok \<in> set good. loads h tok" "\<not> loads h (l, dst, err)"
  shows "readCsv text
       = (case err of
            Some e \<Rightarrow> Fails (ParseError l e)
          | None \<Rightarrow> if length dst \<noteq> length h then Fails (ParseError l ErrFieldCount)
                    else Fails (lineError l))"
proof -
  have "(l0, h, None) \<in> set (tokenize 0 (readLines text))" using assms(1) by simp
  then have "h \<noteq> []" by (rule tokenize_fields)
  then have k: "0 < length h" by simp
  have "readCsv text = readCsv_loop h []
      \<lparr>pending = good @ (l, dst, err) # ts, FieldsPerRecord = length h, fieldLine = l0\<rparr>"
    using assms(1) by (simp add: readCsv_tokens)
  also have "\<dots> = readCsv_loop h ([] @ map (row_of h) good)
      \<lparr>pending = (l, dst, err) # ts, FieldsPerRecord = length h, fieldLine = l0\<rparr>"
    by (rule loop_good [OF k assms(2)])
  finally show ?thesis by (simp only: loop_reject [OF k assms(3)])
qed

text \<open>
  Claim C3, as it holds. A row whose number of fields differs from the number of headers,
  be it smaller or larger, makes loading fail: when the rows before it load, the result is the
  error of the reader for a wrong number of fields on the line of that row. A row with as
  many fields as there are headers is mapped by position: its keys are the headers, and with
  distinct headers the header at each index has the field at that index.
\<close>

theorem readCsv_field_count:
  assumes "tokenize 0 (readLines text) = (l0, h, None) # good @ (l, dst, None) # ts"
    and "\<forall>tok \<in> set good. loads h tok"
  shows "(length dst \<noteq> length h \<longrightarrow> readCsv text = Fails (ParseError l ErrFieldCount))
       \<and> (length dst = length h \<longrightarrow>
            createCsvRow h dst = Some (map_of (rev (zip h dst)))
            \<and> dom (map_of (rev (zip h dst))) = set h
            \<and> (distinct h \<longrightarrow> (\<forall>i < length h. map_of (rev (zip h dst)) (h ! i) = Some (dst ! i))))"
proof -
  have a: "readCsv text = Fails (ParseError l ErrFieldCount)" if "length dst \<noteq> length h"
  proof -
    from that have "\<not> loads h (l, dst, None)" by (simp add: loads_def)
    from readCsv_first_reject [OF assms this] that show ?thesis by simp
  qed
  have b: "createCsvRow h dst = Some (map_of (rev (zip h dst)))" if "length dst = length h"
    using that by (simp add: createCsvRow_Some)
  have c: "dom (map_of (rev (zip h dst))) = set h" if "length dst = length h"
    using that by (simp add: dom_createCsvRow)
  have d: "\<forall>i < length h. map_of (rev (zip h dst)) (h ! i) = Some (dst ! i)"
    if "length dst = length h" "distinct h"
    using that by (simp add: createCsvRow_nth)
  from a b c d show ?thesis by blast
qed

theorem readCsv_field_count_witness:
  "tokenize 0 (readLines (''email,name'' @ [NL] @ ''a@x.com,Ann'' @ [NL]
                           @ ''b@x.com,Bob,yes'' @ [NL]))
     = (1, [''email'', ''name''], None) # [(2, [''a@x.com'', ''Ann''], None)]
         @ (3, [''b@x.com'', ''Bob'', ''yes''], None) # []
   \<and> loads [''email'', ''name''] (2, [''a@x.com'', ''Ann''], None)
   \<and> length [''b@x.com'', ''Bob'', ''yes''] \<noteq> length [''email'', ''name'']
   \<and> readCsv (''email,name'' @ [NL] @ ''a@x.com,Ann'' @ [NL] @ ''b@x.com,Bob,yes'' @ [NL])
       = Fails (ParseError 3 ErrFieldCount)"
proof -
  let ?text = "''email,name'' @ [NL] @ ''a@x.com,Ann'' @ [NL] @ ''b@x.com,Bob,yes'' @ [NL]"
  have t: "tokenize 0 (readLines ?text)
     = (1, [''email'', ''name''], None) # [(2, [''a@x.com'', ''Ann''], None)]
         @ (3, [''b@x.com'', ''Bob'', ''yes''], None) # []"
    using sample_tokens(3) by simp
  have g: "\<forall>tok \<in> set [(2, [''a@x.com'', ''Ann''], None)]. loads [''email'', ''name''] tok"
    by (simp add: sample_loads)
  from readCsv_field_count [OF t g] have "readCsv ?text = Fails (ParseError 3 ErrFieldCount)"
    by simp
  with t sample_loads show ?thesis by simp
qed

text \<open>
  The claim as the specification states it fails: a row with fewer fields than the header,
  and a row with more, are both refused by the reader.
\<close>

theorem ragged_rows_counterexample:
  "tokenize 0 (readLines (''email,name,going'' @ [NL] @ ''a@x.com,Ann'' @ [NL]))
     = [(1, [''email'', ''name'', ''going''], None), (2, [''a@x.com'', ''Ann''], None)]
   \<and> readCsv (''email,name,going'' @ [NL] @ ''a@x.com,Ann'' @ [NL])
       = Fails (ParseError 2 ErrFieldCount)
   \<and> tokenize 0 (readLines (''email,name'' @ [NL] @ ''a@x.com,Ann,yes'' @ [NL]))
     = [(1, [''email'', ''name''], None), (2, [''a@x.com'', ''Ann'', ''yes''], None)]
   \<and> readCsv (''email,name'' @ [NL] @ ''a@x.com,Ann,yes'' @ [NL])
       = Fails (ParseError 2 ErrFieldCount)"
  by (simp only: sample_tokens sample_readCsv simp_thms)

section \<open>Rows without name or email\<close>







section \<open>Lines of a text\<close>

lemma splitLines_Nil: "splitLines [] = []"
  by (simp add: splitLines.simps)

lemma splitLines_NL: "splitLines (NL # s) = [NL] # splitLines s"
  by (subst splitLines.simps) simp

lemma splitLines_Cons:
  assumes "x \<noteq> NL" "splitLines s = l # ls"
  shows "splitLines (x # s) = (x # l) # ls"
proof (cases "dropWhile (\<lambda>c. c \<noteq> NL) s")
  case Nil
  from assms(2) have "s \<noteq> []" by (auto simp add: splitLines_Nil)
  then have "splitLines s = [s]"
    by (subst splitLines.simps) (simp only: Nil list.case if_False)
  with assms(2) have "l = s" "ls = []" by simp_all
  moreover have dw: "dropWhile (\<lambda>c. c \<noteq> NL) (x # s) = []" using assms(1) Nil by simp
  have "splitLines (x # s) = [x # s]"
    by (subst splitLines.simps) (simp only: dw list.case list.simps if_False)
  ultimately show ?thesis by simp
next
  case (Cons y rest)
  then have "s \<noteq> []" by auto
  then have "splitLines s = (takeWhile (\<lambda>c. c \<noteq> NL) s @ [NL]) # splitLines rest"
    by (subst splitLines.simps) (simp only: Cons list.case if_False)
  with assms(2) have "l = takeWhile (\<lambda>c. c \<noteq> NL) s @ [NL]" "ls = splitLines rest" by simp_all
  moreover have dw: "dropWhile (\<lambda>c. c \<noteq> NL) (x # s) = y # rest" using assms(1) Cons by simp
  have tw: "takeWhile (\<lambda>c. c \<noteq> NL) (x # s) = x # takeWhile (\<lambda>c. c \<noteq> NL) s"
    using assms(1) by simp
  have "splitLines (x # s) = (x # takeWhile (\<lambda>c. c \<noteq> NL) s @ [NL]) # splitLines rest"
    by (subst splitLines.simps) (simp only: dw tw list.case list.simps if_False append_Cons)
  ultimately show ?thesis by simp
qed

lemma splitLines_append:
  "NL \<notin> set a \<Longrightarrow> splitLines s = l # ls \<Longrightarrow> splitLines (a @ s) = (a @ l) # ls"
proof (induction a)
  case Nil
  then show ?case by simp
next
  case (Cons x a)
  then have "x \<noteq> NL" "splitLines (a @ s) = (a @ l) # ls" by auto
  then show ?case by (simp add: splitLines_Cons)
qed

lemma splitLines_not_Nil: "s \<noteq> [] \<Longrightarrow> splitLines s \<noteq> []"
  by (subst splitLines.simps) (simp split: list.splits)

lemma splitLines_line:
  "NL \<notin> set a \<Longrightarrow> splitLines (a @ NL # s) = (a @ [NL]) # splitLines s"
  using splitLines_append [of a "NL # s" "[NL]" "splitLines s"] by (simp add: splitLines_NL)

lemma splitLines_first_not_Nil: "splitLines s = l # ls \<Longrightarrow> l \<noteq> []"
  by (subst (asm) splitLines.simps) (auto split: if_splits list.splits)

section \<open>Steps of the parser\<close>

lemma parseQuoted_skip:
  assumes "x \<noteq> DQ" "cur \<noteq> []"
  shows "parseQuoted (x # cur) ls buf rec n = parseQuoted cur ls (buf @ [x]) rec n"
proof (cases "DQ \<in> set cur")
  case True
  then show ?thesis
    using assms(1)
    by (subst parseQuoted.simps, subst (2) parseQuoted.simps) (simp add: Let_def)
next
  case False
  then show ?thesis
    using assms
    by (subst parseQuoted.simps, subst (3) parseQuoted.simps) (simp split: list.splits)
qed

lemma parseQuoted_NL:
  "parseQuoted [NL] (l # ls) buf rec n = parseQuoted l ls (buf @ [NL]) rec (Suc n)"
  by (subst parseQuoted.simps) simp

lemma parseQuoted_DQDQ:
  "parseQuoted (DQ # DQ # cur) ls buf rec n = parseQuoted cur ls (buf @ [DQ]) rec n"
  by (subst parseQuoted.simps) (simp add: Let_def)

lemma parseQuoted_end_Comma:
  "parseQuoted (DQ # Comma # cur) ls buf rec n = parseField cur ls (rec @ [buf]) n"
  by (subst parseQuoted.simps) (simp add: Let_def)

lemma parseQuoted_end_NL:
  "parseQuoted [DQ, NL] ls buf rec n = (rec @ [buf], None, n)"
  by (subst parseQuoted.simps) (simp add: Let_def lengthNL_def)

lemma parseField_DQ:
  "parseField (DQ # cur) ls rec n = parseQuoted cur ls [] rec n"
  by (subst parseField.simps) simp

lemma parseField_bare_Comma:
  assumes "DQ \<notin> set f" "Comma \<notin> set f"
  shows "parseField (f @ Comma # cur) ls rec n = parseField cur ls (rec @ [f]) n"
proof -
  have h: "f @ Comma # cur = [] \<or> hd (f @ Comma # cur) \<noteq> DQ"
    using assms(1) by (cases f) auto
  have t: "takeWhile (\<lambda>c. c \<noteq> Comma) (f @ Comma # cur) = f"
    using assms(2) by (induction f) auto
  have d: "dropWhile (\<lambda>c. c \<noteq> Comma) (f @ Comma # cur) = Comma # cur"
    using assms(2) by (induction f) auto
  show ?thesis
    using assms(1) h by (subst parseField.simps) (simp only: t d Let_def, simp)
qed

lemma parseField_bare_NL:
  assumes "DQ \<notin> set f" "Comma \<notin> set f" "NL \<notin> set f"
  shows "parseField (f @ [NL]) ls rec n = (rec @ [f], None, n)"
proof -
  have h: "f @ [NL] = [] \<or> hd (f @ [NL]) \<noteq> DQ"
    using assms(1) by (cases f) auto
  show ?thesis
    using assms h by (subst parseField.simps) (simp add: Let_def lengthNL_def)
qed

section \<open>Reading what the writer wrote\<close>

lemma bare_field:
  assumes "\<not> fieldNeedsQuotes f"
  shows "writeField f = f" "DQ \<notin> set f" "Comma \<notin> set f" "NL \<notin> set f" "CR \<notin> set f"
  using assms by (auto simp add: writeField_def fieldNeedsQuotes_def split: if_splits)

lemma quoted_field: "fieldNeedsQuotes f \<Longrightarrow> writeField f = DQ # escape f @ [DQ]"
  by (simp add: writeField_def quoteField_def)

lemma parseQuoted_content:
  assumes "splitLines (escape c @ DQ # t) = cur # ls"
  shows "\<exists>cur'. splitLines (DQ # t) = cur' # drop (count_list c NL) ls
           \<and> parseQuoted cur ls buf rec n
               = parseQuoted cur' (drop (count_list c NL) ls) (buf @ c) rec (n + count_list c NL)"
  using assms
proof (induction c arbitrary: cur ls buf n)
  case Nil
  then show ?case by simp
next
  case (Cons x xs)
  let ?R = "escape xs @ DQ # t"
  have "splitLines ?R \<noteq> []" by (rule splitLines_not_Nil) simp
  then obtain cur2 ls2 where R: "splitLines ?R = cur2 # ls2" by (cases "splitLines ?R") auto
  show ?case
  proof (cases "x = DQ")
    case True
    have "splitLines (DQ # DQ # ?R) = (DQ # DQ # cur2) # ls2"
      by (simp add: splitLines_Cons R)
    with Cons.prems True have c: "cur = DQ # DQ # cur2" "ls = ls2" by simp_all
    from Cons.IH [OF R, of "buf @ [DQ]" n] show ?thesis
      by (simp add: c True parseQuoted_DQDQ)
  next
    case False
    show ?thesis
    proof (cases "x = NL")
      case True
      have "splitLines (NL # ?R) = [NL] # cur2 # ls2" by (simp add: splitLines_NL R)
      with Cons.prems True have c: "cur = [NL]" "ls = cur2 # ls2" by simp_all
      from Cons.IH [OF R, of "buf @ [NL]" "Suc n"] show ?thesis
        by (simp add: c True parseQuoted_NL)
    next
      case nl: False
      have "splitLines (x # ?R) = (x # cur2) # ls2" using nl by (simp add: splitLines_Cons R)
      with Cons.prems False have c: "cur = x # cur2" "ls = ls2" by simp_all
      have "cur2 \<noteq> []" using R by (rule splitLines_first_not_Nil)
      then have "parseQuoted (x # cur2) ls2 buf rec n = parseQuoted cur2 ls2 (buf @ [x]) rec n"
        using False by (simp add: parseQuoted_skip)
      with Cons.IH [OF R, of "buf @ [x]" n] show ?thesis
        using nl by (simp add: c)
    qed
  qed
qed

text \<open>
  A record as the writer writes it, read back from the first of its lines: the parser gives
  the fields of the record and has read as many further lines as the fields hold line feeds.
\<close>

lemma parseField_written:
  assumes "fs \<noteq> []" "splitLines (Join (map writeField fs) [Comma] @ NL # rest) = cur # ls"
  shows "parseField cur ls rec n = (rec @ fs, None, n + count_list (concat fs) NL)
       \<and> drop (count_list (concat fs) NL) ls = splitLines rest"
  using assms
proof (induction fs arbitrary: cur ls rec n rule: induct_list012)
  case 1
  then show ?case by simp
next
  case (2 f)
  show ?case
  proof (cases "fieldNeedsQuotes f")
    case False
    note b = bare_field [OF False]
    from 2(2) have "cur = f @ [NL]" "ls = splitLines rest"
      by (simp_all add: b splitLines_line)
    then show ?thesis using b by (simp add: parseField_bare_NL count_list_0_iff)
  next
    case True
    let ?R = "escape f @ DQ # NL # rest"
    have "splitLines ?R \<noteq> []" by (rule splitLines_not_Nil) simp
    then obtain cur1 ls1 where R: "splitLines ?R = cur1 # ls1" by (cases "splitLines ?R") auto
    have "splitLines (DQ # ?R) = (DQ # cur1) # ls1" by (simp add: splitLines_Cons R)
    with 2(2) have c: "cur = DQ # cur1" "ls = ls1" by (simp_all add: quoted_field [OF True])
    from parseQuoted_content [OF R, of "[]" rec n] obtain cur' where
      p: "splitLines (DQ # NL # rest) = cur' # drop (count_list f NL) ls1"
        "parseQuoted cur1 ls1 [] rec n
           = parseQuoted cur' (drop (count_list f NL) ls1) f rec (n + count_list f NL)"
      by auto
    have "splitLines (DQ # NL # rest) = [DQ, NL] # splitLines rest"
      using splitLines_line [of "[DQ]" rest] by simp
    with p(1) have e: "cur' = [DQ, NL]" "drop (count_list f NL) ls1 = splitLines rest" by simp_all
    show ?thesis by (simp add: c parseField_DQ p(2) e parseQuoted_end_NL)
  qed
next
  case (3 f g gs)
  let ?W = "Join (map writeField (g # gs)) [Comma] @ NL # rest"
  have "splitLines ?W \<noteq> []" by (rule splitLines_not_Nil) simp
  then obtain cur2 ls2 where W: "splitLines ?W = cur2 # ls2" by (cases "splitLines ?W") auto
  have ih: "parseField cur2 ls2 r m = (r @ g # gs, None, m + count_list (concat (g # gs)) NL)
       \<and> drop (count_list (concat (g # gs)) NL) ls2 = splitLines rest" for r m
    by (rule 3(2) [OF _ W]) simp
  have j: "Join (map writeField (f # g # gs)) [Comma] @ NL # rest = writeField f @ Comma # ?W"
    by simp
  show ?case
  proof (cases "fieldNeedsQuotes f")
    case False
    note b = bare_field [OF False]
    have "splitLines ((f @ [Comma]) @ ?W) = ((f @ [Comma]) @ cur2) # ls2"
      using b(4) by (intro splitLines_append W) simp
    with 3(4) have c: "cur = f @ Comma # cur2" "ls = ls2" unfolding j by (simp_all add: b(1))
    show ?thesis
      using ih [of "rec @ [f]" n] b by (simp add: c parseField_bare_Comma count_list_0_iff)
  next
    case True
    let ?R = "escape f @ DQ # Comma # ?W"
    have "splitLines ?R \<noteq> []" by (rule splitLines_not_Nil) simp
    then obtain cur1 ls1 where R: "splitLines ?R = cur1 # ls1" by (cases "splitLines ?R") auto
    have "splitLines (DQ # ?R) = (DQ # cur1) # ls1" by (rule splitLines_Cons [OF _ R]) simp
    with 3(4) have c: "cur = DQ # cur1" "ls = ls1"
      unfolding j by (simp_all add: quoted_field [OF True])
    from parseQuoted_content [OF R, of "[]" rec n] obtain cur' where
      p: "splitLines (DQ # Comma # ?W) = cur' # drop (count_list f NL) ls1"
        "parseQuoted cur1 ls1 [] rec n
           = parseQuoted cur' (drop (count_list f NL) ls1) f rec (n + count_list f NL)"
      by auto
    have "splitLines (Comma # ?W) = (Comma # cur2) # ls2"
      by (rule splitLines_Cons [OF _ W]) simp
    then have "splitLines (DQ # Comma # ?W) = (DQ # Comma # cur2) # ls2"
      by (rule splitLines_Cons [rotated]) simp
    with p(1) have e: "cur' = DQ # Comma # cur2" "drop (count_list f NL) ls1 = ls2" by simp_all
    have "drop (count_list (concat (g # gs)) NL) (drop (count_list f NL) ls1) = splitLines rest"
      using ih [of rec n] e(2) by simp
    then have d: "drop (count_list (concat (f # g # gs)) NL) ls1 = splitLines rest"
      by (simp add: add.commute)
    show ?thesis
      using ih [of "rec @ [f]" "n + count_list f NL"] d
      by (simp add: c parseField_DQ p(2) e parseQuoted_end_Comma add.assoc)
  qed
qed

lemma written_hd:
  assumes "fs \<noteq> []" "fs \<noteq> [[]]"
  shows "\<exists>x J. Join (map writeField fs) [Comma] = x # J \<and> x \<noteq> NL"
proof -
  have w: "\<exists>x J. writeField f = x # J \<and> x \<noteq> NL" if "f \<noteq> []" for f
  proof (cases "fieldNeedsQuotes f")
    case True
    then show ?thesis by (simp add: quoted_field)
  next
    case False
    from bare_field [OF False] that show ?thesis by (cases f) auto
  qed
  show ?thesis
  proof (cases fs)
    case Nil
    with assms(1) show ?thesis by simp
  next
    case (Cons f fs')
    show ?thesis
    proof (cases fs')
      case Nil
      with Cons assms(2) have "f \<noteq> []" by simp
      from w [OF this] Cons Nil show ?thesis by simp
    next
      case c2: (Cons g gs)
      show ?thesis
      proof (cases "writeField f")
        case Nil
        then show ?thesis using Cons c2 by simp
      next
        case c3: (Cons x J)
        then have "f \<noteq> []" by (auto simp add: writeField_def fieldNeedsQuotes_def)
        from w [OF this] c3 Cons c2 show ?thesis by auto
      qed
    qed
  qed
qed

lemma not_blank_Cons: "x \<noteq> NL \<Longrightarrow> \<not> blank (x # l)"
  by (cases l) (auto simp add: blank_def lengthNL_def)

text \<open>
  The records of a text that the writer wrote: the records written, in their order, each read
  without error.
\<close>

lemma tokenize_written:
  assumes "\<forall>fs \<in> set rs. fs \<noteq> [] \<and> fs \<noteq> [[]]"
  shows "map snd (tokenize n (splitLines (concat (map csvWrite rs)))) = map (\<lambda>fs. (fs, None)) rs"
  using assms
proof (induction rs arbitrary: n)
  case Nil
  then show ?case by (simp add: splitLines_Nil tokenize_Nil)
next
  case (Cons fs rs)
  let ?W = "concat (map csvWrite rs)"
  from Cons.prems have fs: "fs \<noteq> []" "fs \<noteq> [[]]" by simp_all
  from written_hd [OF fs] obtain x J where
    J: "Join (map writeField fs) [Comma] = x # J" "x \<noteq> NL" by auto
  have "splitLines (J @ NL # ?W) \<noteq> []" by (rule splitLines_not_Nil) simp
  then obtain l' ls where s': "splitLines (J @ NL # ?W) = l' # ls"
    by (cases "splitLines (J @ NL # ?W)") auto
  have s: "splitLines (Join (map writeField fs) [Comma] @ NL # ?W) = (x # l') # ls"
    unfolding J(1) using splitLines_Cons [OF J(2) s'] by simp
  from parseField_written [OF fs(1) s, of "[]" 0]
  have p: "parseField (x # l') ls [] 0 = (fs, None, count_list (concat fs) NL)"
    "drop (count_list (concat fs) NL) ls = splitLines ?W"
    by simp_all
  have w: "concat (map csvWrite (fs # rs)) = Join (map writeField fs) [Comma] @ NL # ?W"
    by (simp add: csvWrite_def)
  have d: "dropWhile blank ((x # l') # ls) = (x # l') # ls"
    using not_blank_Cons [OF J(2)] by simp
  have "tokenize n (splitLines (concat (map csvWrite (fs # rs))))
      = (n + length (takeWhile blank ((x # l') # ls)) + 1, fs, None)
        # tokenize (n + length (takeWhile blank ((x # l') # ls)) + 1 + count_list (concat fs) NL)
            (splitLines ?W)"
    unfolding w s by (simp add: tokenize_Cons [OF d] p Let_def)
  then show ?case using Cons.IH Cons.prems by simp
qed

section \<open>Texts without carriage return in front of a line feed\<close>

lemma crlf_free_Cons:
  "crlf_free (x # s) \<longleftrightarrow> crlf_free s \<and> \<not> (x = CR \<and> s \<noteq> [] \<and> hd s = NL)"
  by (cases s) auto

lemma crlf_free_append:
  "crlf_free (a @ b) \<longleftrightarrow>
     crlf_free a \<and> crlf_free b \<and> \<not> (a \<noteq> [] \<and> b \<noteq> [] \<and> last a = CR \<and> hd b = NL)"
proof (induction a)
  case Nil
  then show ?case by simp
next
  case (Cons x a)
  show ?case
  proof (cases a)
    case Nil
    then show ?thesis by (auto simp add: crlf_free_Cons)
  next
    case (Cons y a')
    then show ?thesis using Cons.IH by (auto simp add: crlf_free_Cons)
  qed
qed

lemma escape_Nil_iff: "escape c = [] \<longleftrightarrow> c = []"
  by (cases c) auto

lemma hd_escape: "c \<noteq> [] \<Longrightarrow> hd (escape c) = hd c"
  by (cases c) auto

lemma crlf_free_escape: "crlf_free c \<Longrightarrow> crlf_free (escape c)"
proof (induction c)
  case Nil
  then show ?case by simp
next
  case (Cons x xs)
  then have ih: "crlf_free (escape xs)" and x: "\<not> (x = CR \<and> xs \<noteq> [] \<and> hd xs = NL)"
    by (simp_all add: crlf_free_Cons)
  show ?case
  proof (cases "x = DQ")
    case True
    then show ?thesis using ih by (simp add: crlf_free_Cons)
  next
    case False
    then show ?thesis using ih x by (auto simp add: crlf_free_Cons escape_Nil_iff hd_escape)
  qed
qed

lemma crlf_free_writeField:
  assumes "crlf_free f"
  shows "crlf_free (writeField f)"
    and "writeField f = [] \<or> (last (writeField f) \<noteq> CR \<and> hd (writeField f) \<noteq> NL)"
proof -
  show "crlf_free (writeField f)"
  proof (cases "fieldNeedsQuotes f")
    case True
    have "crlf_free (escape f @ [DQ])"
      using crlf_free_escape [OF assms] by (simp add: crlf_free_append)
    then show ?thesis by (simp add: quoted_field [OF True] crlf_free_Cons)
  next
    case False
    then show ?thesis using assms by (simp add: bare_field)
  qed
  show "writeField f = [] \<or> (last (writeField f) \<noteq> CR \<and> hd (writeField f) \<noteq> NL)"
  proof (cases "fieldNeedsQuotes f")
    case True
    then show ?thesis by (simp add: quoted_field)
  next
    case False
    note b = bare_field [OF False]
    show ?thesis
    proof (cases "f = []")
      case True
      then show ?thesis using b(1) by simp
    next
      case False
      then have "last f \<in> set f" "hd f \<in> set f" by simp_all
      with b show ?thesis by metis
    qed
  qed
qed

lemma crlf_free_Join:
  assumes "\<forall>f \<in> set fs. crlf_free f"
  shows "crlf_free (Join (map writeField fs) [Comma])
       \<and> (Join (map writeField fs) [Comma] = []
           \<or> last (Join (map writeField fs) [Comma]) \<noteq> CR)"
  using assms
proof (induction fs rule: induct_list012)
  case 1
  then show ?case by simp
next
  case (2 f)
  then show ?case using crlf_free_writeField [of f] by auto
next
  case (3 f g gs)
  let ?J = "Join (map writeField (g # gs)) [Comma]"
  from 3 have ih: "crlf_free ?J" "?J = [] \<or> last ?J \<noteq> CR" by simp_all
  from 3(3) have f: "crlf_free (writeField f)" using crlf_free_writeField(1) by simp
  have c: "crlf_free (Comma # ?J)" using ih(1) by (simp add: crlf_free_Cons)
  have "crlf_free (writeField f @ Comma # ?J)"
    using f c by (simp add: crlf_free_append)
  moreover have "last (writeField f @ Comma # ?J) \<noteq> CR" using ih(2) by auto
  ultimately show ?case by simp
qed

lemma crlf_free_written:
  assumes "\<forall>fs \<in> set rs. \<forall>f \<in> set fs. crlf_free f"
  shows "crlf_free (concat (map csvWrite rs))
       \<and> (concat (map csvWrite rs) = [] \<or> last (concat (map csvWrite rs)) = NL)"
  using assms
proof (induction rs)
  case Nil
  then show ?case by simp
next
  case (Cons fs rs)
  let ?J = "Join (map writeField fs) [Comma]"
  let ?W = "concat (map csvWrite rs)"
  from Cons have ih: "crlf_free ?W" "?W = [] \<or> last ?W = NL" by simp_all
  from Cons.prems have j: "crlf_free ?J" "?J = [] \<or> last ?J \<noteq> CR"
    using crlf_free_Join [of fs] by simp_all
  have "crlf_free (?J @ [NL])" using j by (auto simp add: crlf_free_append)
  then have c1: "crlf_free ((?J @ [NL]) @ ?W)"
    using ih(1) by (subst crlf_free_append) simp
  have c2: "last ((?J @ [NL]) @ ?W) = NL" using ih(2) by auto
  have e: "concat (map csvWrite (fs # rs)) = (?J @ [NL]) @ ?W" by (simp add: csvWrite_def)
  show ?case unfolding e by (intro conjI disjI2) (fact c1, fact c2)
qed

lemma readLines_crlf_free:
  "crlf_free s \<Longrightarrow> s = [] \<or> last s = NL \<Longrightarrow> readLines s = splitLines s"
proof (induction s rule: splitLines.induct)
  case (1 s)
  show ?case
  proof (cases "s = []")
    case True
    then show ?thesis by (simp add: readLines_def splitLines_Nil)
  next
    case False
    with 1(3) have l: "last s = NL" by simp
    then have "NL \<in> set s" using False by (metis last_in_set)
    then obtain y rest where d: "dropWhile (\<lambda>c. c \<noteq> NL) s = y # rest"
      by (cases "dropWhile (\<lambda>c. c \<noteq> NL) s") (auto simp add: dropWhile_eq_Nil_conv)
    let ?a = "takeWhile (\<lambda>c. c \<noteq> NL) s"
    have "\<not> (hd (dropWhile (\<lambda>c. c \<noteq> NL) s) \<noteq> NL)"
      using hd_dropWhile [of "\<lambda>c. c \<noteq> NL" s] d by fastforce
    with d have y: "y = NL" by simp
    have s: "s = ?a @ NL # rest"
      using takeWhile_dropWhile_id [of "\<lambda>c. c \<noteq> NL" s] d y by simp
    have sp: "splitLines s = (?a @ [NL]) # splitLines rest"
      using False by (subst splitLines.simps) (simp only: d list.case if_False)
    have cf: "crlf_free (?a @ NL # rest)" using 1(2) s by simp
    then have a: "?a = [] \<or> last ?a \<noteq> CR" and r: "crlf_free rest"
      by (auto simp add: crlf_free_append crlf_free_Cons)
    have r2: "rest = [] \<or> last rest = NL"
      using l by (subst (asm) s) (auto split: if_splits)
    have "\<not> suffix [CR, NL] (?a @ [NL])"
    proof
      assume "suffix [CR, NL] (?a @ [NL])"
      then obtain u where "?a @ [NL] = u @ [CR, NL]" by (auto simp add: suffix_def)
      then have "?a = u @ [CR]" by (metis append_Cons append_Nil append_assoc butlast_snoc)
      with a show False by simp
    qed
    then have f: "fixLine (?a @ [NL]) = ?a @ [NL]" by (simp add: fixLine_def)
    have "readLines rest = splitLines rest" by (rule 1(1) [OF False d r r2])
    then show ?thesis by (simp add: readLines_def sp f)
  qed
qed

section \<open>Writing a file and loading it again\<close>

lemma write_row_eq: "write_row csvRow headers row = csvRow @ map (at row) headers"
  by (induction headers arbitrary: csvRow) auto

lemma write_loop_eq:
  "write_loop out headers rows
     = out @ concat (map (\<lambda>row. csvWrite (map (at row) headers)) rows)"
  by (induction rows arbitrary: out) (auto simp add: write_row_eq)

lemma write_csv_eq:
  "write_csv T
     = concat (map csvWrite (Headers T # map (\<lambda>row. map (at row) (Headers T)) (Rows T)))"
  by (simp add: write_csv_def write_loop_eq comp_def)

lemma map_of_zip_map:
  "map_of (rev (zip h (map f h))) = (\<lambda>k. if k \<in> set h then Some (f k) else None)"
proof
  fix k
  show "map_of (rev (zip h (map f h))) k = (if k \<in> set h then Some (f k) else None)"
  proof (cases "k \<in> set h")
    case False
    then have "k \<notin> fst ` set (rev (zip h (map f h)))" by (auto dest: set_zip_leftD)
    then have "map_of (rev (zip h (map f h))) k = None" by (simp add: map_of_eq_None_iff)
    with False show ?thesis by simp
  next
    case True
    then have "k \<in> dom (map_of (rev (zip h (map f h))))"
      using dom_createCsvRow [of h "map f h"] by simp
    then obtain v where v: "map_of (rev (zip h (map f h))) k = Some v" by auto
    then have "(k, v) \<in> set (zip h (map f h))" using map_of_SomeD by fastforce
    then have "v = f k" by (auto simp add: set_zip)
    with v True show ?thesis by simp
  qed
qed

text \<open>The row that comes back for a row written under the headers \<open>h\<close>.\<close>

lemma loads_written:
  assumes "Name \<in> set h" "Email \<in> set h" "row_Name row \<noteq> []" "row_Email row \<noteq> []"
  shows "loads h (l, map (at row) h, None)"
    and "row_of h (l, map (at row) h, None) = (\<lambda>k. if k \<in> set h then Some (at row k) else None)"
proof -
  have c: "createCsvRow h (map (at row) h)
      = Some (\<lambda>k. if k \<in> set h then Some (at row k) else None)"
    by (simp add: createCsvRow_Some map_of_zip_map)
  show "row_of h (l, map (at row) h, None) = (\<lambda>k. if k \<in> set h then Some (at row k) else None)"
    by (simp add: row_of_def c)
  show "loads h (l, map (at row) h, None)"
    using assms by (simp add: loads_def c row_Name_def row_Email_def at_def)
qed

lemma readCsv_write_csv:
  assumes hdr: "Headers T \<noteq> []" "Headers T \<noteq> [[]]"
    and cells: "\<forall>f \<in> set (Headers T). crlf_free f"
      "\<forall>row \<in> set (Rows T). \<forall>f \<in> set (Headers T). crlf_free (at row f)"
    and rows: "\<forall>row \<in> set (Rows T). Name \<in> set (Headers T) \<and> Email \<in> set (Headers T)
        \<and> row_Name row \<noteq> [] \<and> row_Email row \<noteq> []"
  shows "readCsv (write_csv T)
       = Loaded \<lparr>Headers = Headers T,
                 Rows = map (\<lambda>row k. if k \<in> set (Headers T) then Some (at row k) else None)
                          (Rows T)\<rparr>"
proof -
  let ?h = "Headers T"
  let ?rs = "?h # map (\<lambda>row. map (at row) ?h) (Rows T)"
  let ?W = "concat (map csvWrite ?rs)"
  let ?norm = "\<lambda>row k. if k \<in> set ?h then Some (at row k) else None"
  have cf: "\<forall>fs \<in> set ?rs. \<forall>f \<in> set fs. crlf_free f" using cells by auto
  have nb: "\<forall>fs \<in> set ?rs. fs \<noteq> [] \<and> fs \<noteq> [[]]"
  proof
    fix fs assume "fs \<in> set ?rs"
    then consider "fs = ?h" | row where "row \<in> set (Rows T)" "fs = map (at row) ?h" by auto
    then show "fs \<noteq> [] \<and> fs \<noteq> [[]]"
    proof cases
      case 1
      then show ?thesis using hdr by simp
    next
      case 2
      with rows have "Name \<in> set ?h" "at row Name \<noteq> []" by (auto simp add: row_Name_def)
      then have "at row Name \<in> set fs" "at row Name \<noteq> []" using 2(2) by auto
      then show ?thesis by auto
    qed
  qed
  have "readLines ?W = splitLines ?W"
    using crlf_free_written [OF cf] by (intro readLines_crlf_free) simp_all
  then have "map snd (tokenize 0 (readLines (write_csv T))) = map (\<lambda>fs. (fs, None)) ?rs"
    using tokenize_written [OF nb, of 0] by (simp only: write_csv_eq)
  then obtain tok ts where
    t: "tokenize 0 (readLines (write_csv T)) = tok # ts" "snd tok = (?h, None)"
      "map snd ts = map (\<lambda>row. (map (at row) ?h, None)) (Rows T)"
    by (cases "tokenize 0 (readLines (write_csv T))") auto
  obtain l0 where tok: "tok = (l0, ?h, None)" using t(2) by (cases tok) auto
  have each: "loads ?h x \<and> row_of ?h x = ?norm row"
    if r: "row \<in> set (Rows T)" and sx: "snd x = (map (at row) ?h, None)" for x row
  proof -
    obtain l where x: "x = (l, map (at row) ?h, None)" using sx by (cases x) auto
    from rows r have "Name \<in> set ?h" "Email \<in> set ?h" "row_Name row \<noteq> []"
      "row_Email row \<noteq> []" by auto
    from loads_written [OF this, of l] show ?thesis by (simp add: x)
  qed
  have len: "length ts = length (Rows T)" using t(3) by (metis length_map)
  have nth: "snd (ts ! i) = (map (at (Rows T ! i)) ?h, None)" if "i < length ts" for i
    using t(3) that len by (metis nth_map)
  have good: "\<forall>x \<in> set ts. loads ?h x"
  proof
    fix x assume "x \<in> set ts"
    then obtain i where i: "i < length ts" "ts ! i = x" by (auto simp add: in_set_conv_nth)
    then have "Rows T ! i \<in> set (Rows T)" using len by simp
    from each [OF this, of x] nth [OF i(1)] i(2) show "loads ?h x" by simp
  qed
  have rws: "map (row_of ?h) ts = map ?norm (Rows T)"
  proof (rule nth_equalityI)
    show "length (map (row_of ?h) ts) = length (map ?norm (Rows T))" using len by simp
  next
    fix i assume "i < length (map (row_of ?h) ts)"
    then have i: "i < length ts" by simp
    then have "Rows T ! i \<in> set (Rows T)" using len by simp
    from each [OF this, of "ts ! i"] nth [OF i]
    have "row_of ?h (ts ! i) = ?norm (Rows T ! i)" by simp
    then show "map (row_of ?h) ts ! i = map ?norm (Rows T) ! i" using i len by simp
  qed
  have k: "0 < length ?h" using hdr(1) by simp
  have "readCsv (write_csv T)
      = readCsv_loop ?h [] \<lparr>pending = ts, FieldsPerRecord = length ?h, fieldLine = l0\<rparr>"
    by (simp add: readCsv_tokens t(1) tok)
  also have "\<dots> = Loaded \<lparr>Headers = ?h, Rows = [] @ map (row_of ?h) ts\<rparr>"
    by (rule loop_all_good [OF k good])
  finally show ?thesis by (simp add: rws)
qed

lemma row_written_same:
  assumes "dom row = set h"
  shows "(\<lambda>k. if k \<in> set h then Some (at row k) else None) = row"
proof
  fix k
  show "(if k \<in> set h then Some (at row k) else None) = row k"
    using assms by (cases "row k") (auto simp add: at_def)
qed

text \<open>
  Claim C8, as it holds. Let the headers of a table be neither none nor a single empty one,
  let every row have exactly the headers as keys and a name and an email that are not empty,
  and let no header and no cell hold a carriage return directly in front of a line feed. Then
  the text written for the table loads, and what is loaded is the table: the same headers and
  the same rows in the same order. Commas, quotes, line feeds and leading white space in
  cells do no harm: the writer quotes such cells and the reader reads them back.
\<close>

theorem write_read_roundtrip:
  assumes "Headers T \<noteq> []" and "Headers T \<noteq> [[]]"
    and "\<forall>f \<in> set (Headers T). crlf_free f"
    and "\<forall>row \<in> set (Rows T). \<forall>f \<in> set (Headers T). crlf_free (at row f)"
    and "\<forall>row \<in> set (Rows T). dom row = set (Headers T)
           \<and> row_Name row \<noteq> [] \<and> row_Email row \<noteq> []"
  shows "readCsv (write_csv T) = Loaded T"
proof -
  have mem: "Name \<in> set (Headers T) \<and> Email \<in> set (Headers T)" if "row \<in> set (Rows T)" for row
  proof -
    from assms(5) that have d: "dom row = set (Headers T)" and n: "row_Name row \<noteq> []"
      and e: "row_Email row \<noteq> []" by auto
    from n have "Name \<in> dom row" by (auto simp add: row_Name_def at_def split: option.splits)
    moreover from e have "Email \<in> dom row"
      by (auto simp add: row_Email_def at_def split: option.splits)
    ultimately show ?thesis using d by simp
  qed
  then have rows: "\<forall>row \<in> set (Rows T). Name \<in> set (Headers T) \<and> Email \<in> set (Headers T)
        \<and> row_Name row \<noteq> [] \<and> row_Email row \<noteq> []"
    using assms(5) by blast
  have "map (\<lambda>row k. if k \<in> set (Headers T) then Some (at row k) else None) (Rows T) = Rows T"
    using assms(5) by (intro map_idI row_written_same) simp
  with readCsv_write_csv [OF assms(1-4) rows] show ?thesis by simp
qed

lemma quoted_sample_text:
  "write_csv quoted_sample
     = ''email,name,note'' @ [NL]
       @ ''a@x.com,'' @ [DQ] @ ''Ann, the '' @ [DQ, DQ] @ ''first'' @ [DQ, DQ, DQ] @ '','' @ [DQ]
       @ '' two'' @ [NL] @ ''lines'' @ [DQ, NL]
       @ ''b@x.com,Bob,'' @ [NL]"
  by code_simp

theorem write_read_roundtrip_witness:
  "write_csv quoted_sample
     = ''email,name,note'' @ [NL]
       @ ''a@x.com,'' @ [DQ] @ ''Ann, the '' @ [DQ, DQ] @ ''first'' @ [DQ, DQ, DQ] @ '','' @ [DQ]
       @ '' two'' @ [NL] @ ''lines'' @ [DQ, NL]
       @ ''b@x.com,Bob,'' @ [NL]
   \<and> readCsv (write_csv quoted_sample) = Loaded quoted_sample"
proof -
  have 1: "Headers quoted_sample \<noteq> []" "Headers quoted_sample \<noteq> [[]]"
    by (simp_all add: quoted_sample_def)
  have 2: "\<forall>f \<in> set (Headers quoted_sample). crlf_free f"
    by (simp add: quoted_sample_def)
  have 3: "\<forall>row \<in> set (Rows quoted_sample). \<forall>f \<in> set (Headers quoted_sample). crlf_free (at row f)"
    by (simp add: quoted_sample_def at_def)
  have 4: "\<forall>row \<in> set (Rows quoted_sample). dom row = set (Headers quoted_sample)
           \<and> row_Name row \<noteq> [] \<and> row_Email row \<noteq> []"
    by (auto simp add: quoted_sample_def row_Name_def row_Email_def at_def Name_def Email_def)
  from write_read_roundtrip [OF 1 2 3 4] quoted_sample_text show ?thesis by simp
qed

text \<open>
  The claim as the specification states it fails, on tables whose cells need no quoting at
  all: a table without headers is written as an empty line, which does not load; a row with
  an empty name is written and then refused by the loader; a row that lacks a key of the
  headers comes back with that key and the empty value. And a cell that holds a carriage
  return in front of a line feed comes back without the carriage return.
\<close>

lemma roundtrip_sample_tokens:
  "tokenize 0 (readLines (write_csv \<lparr>Headers = [], Rows = []\<rparr>)) = []"
  "tokenize 0 (readLines (write_csv \<lparr>Headers = [''email'', ''name''],
       Rows = [[''email'' \<mapsto> ''a@x.com'', ''name'' \<mapsto> []]]\<rparr>))
     = [(1, [''email'', ''name''], None), (2, [''a@x.com'', []], None)]"
  "tokenize 0 (readLines (write_csv \<lparr>Headers = [''email'', ''name'', ''going''],
       Rows = [[''email'' \<mapsto> ''a@x.com'', ''name'' \<mapsto> ''Ann'']]\<rparr>))
     = [(1, [''email'', ''name'', ''going''], None), (2, [''a@x.com'', ''Ann'', []], None)]"
  "tokenize 0 (readLines (write_csv \<lparr>Headers = [''email'', ''name''],
       Rows = [[''email'' \<mapsto> ''a@x.com'', ''name'' \<mapsto> [CHR ''A'', CR, NL, CHR ''B'']]]\<rparr>))
     = [(1, [''email'', ''name''], None), (2, [''a@x.com'', [CHR ''A'', NL, CHR ''B'']], None)]"
  by code_simp+

theorem write_read_counterexample:
  "readCsv (write_csv \<lparr>Headers = [], Rows = []\<rparr>) = Fails EOF
   \<and> readCsv (write_csv \<lparr>Headers = [''email'', ''name''],
         Rows = [[''email'' \<mapsto> ''a@x.com'', ''name'' \<mapsto> []]]\<rparr>)
       = Fails (Errorf ''Line 2: name and email columns must be present'')
   \<and> readCsv (write_csv \<lparr>Headers = [''email'', ''name'', ''going''],
         Rows = [[''email'' \<mapsto> ''a@x.com'', ''name'' \<mapsto> ''Ann'']]\<rparr>)
       = Loaded \<lparr>Headers = [''email'', ''name'', ''going''],
           Rows = [[''email'' \<mapsto> ''a@x.com'', ''name'' \<mapsto> ''Ann'', ''going'' \<mapsto> []]]\<rparr>
   \<and> readCsv (write_csv \<lparr>Headers = [''email'', ''name'', ''going''],
         Rows = [[''email'' \<mapsto> ''a@x.com'', ''name'' \<mapsto> ''Ann'']]\<rparr>)
       \<noteq> Loaded \<lparr>Headers = [''email'', ''name'', ''going''],
           Rows = [[''email'' \<mapsto> ''a@x.com'', ''name'' \<mapsto> ''Ann'']]\<rparr>
   \<and> readCsv (write_csv \<lparr>Headers = [''email'', ''name''],
         Rows = [[''email'' \<mapsto> ''a@x.com'', ''name'' \<mapsto> [CHR ''A'', CR, NL, CHR ''B'']]]\<rparr>)
       = Loaded \<lparr>Headers = [''email'', ''name''],
           Rows = [[''email'' \<mapsto> ''a@x.com'', ''name'' \<mapsto> [CHR ''A'', NL, CHR ''B'']]]\<rparr>
   \<and> readCsv (write_csv \<lparr>Headers = [''email'', ''name''],
         Rows = [[''email'' \<mapsto> ''a@x.com'', ''name'' \<mapsto> [CHR ''A'', CR, NL, CHR ''B'']]]\<rparr>)
       \<noteq> Loaded \<lparr>Headers = [''email'', ''name''],
           Rows = [[''email'' \<mapsto> ''a@x.com'', ''name'' \<mapsto> [CHR ''A'', CR, NL, CHR ''B'']]]\<rparr>"
proof -
  have d: "decimal 2 = ''2''" by code_simp
  have a: "readCsv (write_csv \<lparr>Headers = [], Rows = []\<rparr>) = Fails EOF"
    by (simp add: readCsv_tokens roundtrip_sample_tokens(1))
  have b: "readCsv (write_csv \<lparr>Headers = [''email'', ''name''],
         Rows = [[''email'' \<mapsto> ''a@x.com'', ''name'' \<mapsto> []]]\<rparr>)
       = Fails (Errorf ''Line 2: name and email columns must be present'')"
    by (simp add: readCsv_tokens roundtrip_sample_tokens(2) loop_row createCsvRow_def
          row_Name_def row_Email_def at_def Name_def Email_def lineError_def d)
  have c: "readCsv (write_csv \<lparr>Headers = [''email'', ''name'', ''going''],
         Rows = [[''email'' \<mapsto> ''a@x.com'', ''name'' \<mapsto> ''Ann'']]\<rparr>)
       = Loaded \<lparr>Headers = [''email'', ''name'', ''going''],
           Rows = [[''email'' \<mapsto> ''a@x.com'', ''name'' \<mapsto> ''Ann'', ''going'' \<mapsto> []]]\<rparr>"
    by (simp add: readCsv_tokens roundtrip_sample_tokens(3) loop_row loop_Nil createCsvRow_def
          row_Name_def row_Email_def at_def Name_def Email_def)
  have e: "readCsv (write_csv \<lparr>Headers = [''email'', ''name''],
         Rows = [[''email'' \<mapsto> ''a@x.com'', ''name'' \<mapsto> [CHR ''A'', CR, NL, CHR ''B'']]]\<rparr>)
       = Loaded \<lparr>Headers = [''email'', ''name''],
           Rows = [[''email'' \<mapsto> ''a@x.com'', ''name'' \<mapsto> [CHR ''A'', NL, CHR ''B'']]]\<rparr>"
    by (simp add: readCsv_tokens roundtrip_sample_tokens(4) loop_row loop_Nil createCsvRow_def
          row_Name_def row_Email_def at_def Name_def Email_def)
  have c': "[''email'' \<mapsto> ''a@x.com'', ''name'' \<mapsto> ''Ann'', ''going'' \<mapsto> []]
      \<noteq> [''email'' \<mapsto> ''a@x.com'', ''name'' \<mapsto> ''Ann'']"
  proof
    assume "[''email'' \<mapsto> ''a@x.com'', ''name'' \<mapsto> ''Ann'', ''going'' \<mapsto> []]
      = [''email'' \<mapsto> ''a@x.com'', ''name'' \<mapsto> ''Ann'']"
    then have "[''email'' \<mapsto> ''a@x.com'', ''name'' \<mapsto> ''Ann'', ''going'' \<mapsto> []] ''going''
      = [''email'' \<mapsto> ''a@x.com'', ''name'' \<mapsto> ''Ann''] ''going''"
      by (rule arg_cong)
    then show False by simp
  qed
  have e': "[''email'' \<mapsto> ''a@x.com'', ''name'' \<mapsto> [CHR ''A'', NL, CHR ''B'']]
      \<noteq> [''email'' \<mapsto> ''a@x.com'', ''name'' \<mapsto> [CHR ''A'', CR, NL, CHR ''B'']]"
  proof
    assume "[''email'' \<mapsto> ''a@x.com'', ''name'' \<mapsto> [CHR ''A'', NL, CHR ''B'']]
      = [''email'' \<mapsto> ''a@x.com'', ''name'' \<mapsto> [CHR ''A'', CR, NL, CHR ''B'']]"
    then have "[''email'' \<mapsto> ''a@x.com'', ''name'' \<mapsto> [CHR ''A'', NL, CHR ''B'']] ''name''
      = [''email'' \<mapsto> ''a@x.com'', ''name'' \<mapsto> [CHR ''A'', CR, NL, CHR ''B'']] ''name''"
      by (rule arg_cong)
    then show False by simp
  qed
  from c c' have cn: "readCsv (write_csv \<lparr>Headers = [''email'', ''name'', ''going''],
         Rows = [[''email'' \<mapsto> ''a@x.com'', ''name'' \<mapsto> ''Ann'']]\<rparr>)
       \<noteq> Loaded \<lparr>Headers = [''email'', ''name'', ''going''],
           Rows = [[''email'' \<mapsto> ''a@x.com'', ''name'' \<mapsto> ''Ann'']]\<rparr>"
    by simp
  from e e' have en: "readCsv (write_csv \<lparr>Headers = [''email'', ''name''],
         Rows = [[''email'' \<mapsto> ''a@x.com'', ''name'' \<mapsto> [CHR ''A'', CR, NL, CHR ''B'']]]\<rparr>)
       \<noteq> Loaded \<lparr>Headers = [''email'', ''name''],
           Rows = [[''email'' \<mapsto> ''a@x.com'', ''name'' \<mapsto> [CHR ''A'', CR, NL, CHR ''B'']]]\<rparr>"
    by simp
  from a b c cn e en show ?thesis by (intro conjI)
qed

section \<open>The invariant of tables\<close>

text \<open>
  Every file that the loader returns satisfies the invariant, with the headers as the keys of
  every row, a name and an email in every row; selecting rows and \<open>WithNotGoing\<close> keep the
  invariant.
\<close>

lemma readCsv_table_inv:
  assumes "readCsv text = Loaded T" "row \<in> set (Rows T)"
  shows "dom row = set (Headers T)" and "row_Name row \<noteq> []" and "row_Email row \<noteq> []"
proof -
  from readCsv_cases [of "text"] assms(1) obtain l h ts where
    t: "\<forall>tok \<in> set ts. loads h tok" "T = \<lparr>Headers = h, Rows = map (row_of h) ts\<rparr>"
    by auto
  from assms(2) t(2) obtain tok where tok: "tok \<in> set ts" "row = row_of h tok" by auto
  obtain l dst err where d: "tok = (l, dst, err)" by (cases tok) auto
  note r = loads_row [OF t(1) [rule_format, OF tok(1), unfolded d]]
  from r(2,3) have "row = map_of (rev (zip h dst))"
    by (simp add: tok(2) d createCsvRow_Some)
  then show "dom row = set (Headers T)" using r(2) by (simp add: dom_createCsvRow t(2))
  from r(4,5) show "row_Name row \<noteq> []" "row_Email row \<noteq> []" by (simp_all add: tok(2) d)
qed

lemma readCsv_inv: "readCsv text = Loaded T \<Longrightarrow> table_inv T"
  using readCsv_table_inv(1) [of "text" T] by (simp add: table_inv_def)

lemma sel_inv: "table_inv T \<Longrightarrow> table_inv (sel T f)"
  by (simp add: table_inv_def Rows_sel Headers_sel)

lemma WithNotGoing_inv: "table_inv T \<Longrightarrow> table_inv (WithNotGoing T)"
  by (auto simp add: table_inv_def WithNotGoing_def WithNotGoing_loop_map addGoingHeader_def
        row_WithNotGoing_def)

end
